theory Spec2Isabelle
  imports Main
begin

section \<open>Byte strings\<close>

text \<open>
  A Go \<^verbatim>\<open>string\<close> is a sequence of bytes, not necessarily well-formed UTF-8.  Keys, values,
  encoded records and the contents of the data file are all modelled as \<^typ>\<open>string\<close>, a list
  of 8-bit characters; \<open>byte\<close> reads a character as a number and \<open>chr\<close> writes one.
\<close>

abbreviation byte :: "char \<Rightarrow> nat" where
  "byte \<equiv> of_char"

abbreviation chr :: "nat \<Rightarrow> char" where
  "chr \<equiv> char_of"

abbreviation LF :: char where
  "LF \<equiv> CHR 0x0A"

abbreviation CR :: char where
  "CR \<equiv> CHR 0x0D"

abbreviation DQ :: char where
  "DQ \<equiv> CHR 0x22"

abbreviation BSL :: char where
  "BSL \<equiv> CHR 0x5C"

section \<open>The errors of the store\<close>

text \<open>
  The three kinds of failure the code can return: \<^verbatim>\<open>errors.New("key not found")\<close> of Get and
  Delete, an error of the operating system or of the buffered reader (open, seek, read, write,
  close, end of file, line too long), and an error of \<^verbatim>\<open>json.Unmarshal\<close>.
\<close>

datatype error = KeyNotFound | StorageError | EncodingError

section \<open>The library: UTF-8 (package unicode/utf8)\<close>

definition RuneError :: nat where
  "RuneError = 0xFFFD"

text \<open>
  \<^verbatim>\<open>utf8.DecodeRuneInString\<close>: the first rune of \<open>s\<close> and its width in bytes.  An empty
  string gives \<open>(RuneError, 0)\<close>, an ill-formed first byte or sequence \<open>(RuneError, 1)\<close>.  The
  ranges are those of Go's tables \<^verbatim>\<open>first\<close> and \<^verbatim>\<open>acceptRanges\<close>: no overlong form, no
  surrogate, nothing above U+10FFFF.
\<close>

definition DecodeRune :: "string \<Rightarrow> nat \<times> nat" where
  "DecodeRune s =
     (case s of
        [] \<Rightarrow> (RuneError, 0)
      | c0 # _ \<Rightarrow>
          let s0 = byte c0 in
          if s0 < 0x80 then (s0, 1)
          else if s0 < 0xC2 \<or> 0xF4 < s0 then (RuneError, 1)
          else
            let sz = (if s0 < 0xE0 then 2 else if s0 < 0xF0 then 3 else 4 :: nat);
                lo = (if s0 = 0xE0 then 0xA0 else if s0 = 0xF0 then 0x90 else 0x80);
                hi = (if s0 = 0xED then 0x9F else if s0 = 0xF4 then 0x8F else 0xBF)
            in
            if length s < sz then (RuneError, 1)
            else
              let s1 = byte (s ! 1) in
              if s1 < lo \<or> hi < s1 then (RuneError, 1)
              else if sz \<le> 2 then ((s0 mod 32) * 64 + s1 mod 64, 2)
              else
                let s2 = byte (s ! 2) in
                if s2 < 0x80 \<or> 0xBF < s2 then (RuneError, 1)
                else if sz \<le> 3 then ((s0 mod 16) * 4096 + (s1 mod 64) * 64 + s2 mod 64, 3)
                else
                  let s3 = byte (s ! 3) in
                  if s3 < 0x80 \<or> 0xBF < s3 then (RuneError, 1)
                  else ((s0 mod 8) * 262144 + (s1 mod 64) * 4096 + (s2 mod 64) * 64
                          + s3 mod 64, 4))"

text \<open>
  \<^verbatim>\<open>utf8.AppendRune\<close>: the UTF-8 encoding of a rune; a surrogate or a value above U+10FFFF
  is written as U+FFFD.
\<close>

definition EncodeRune :: "nat \<Rightarrow> string" where
  "EncodeRune r =
     (if r \<le> 0x7F then [chr r]
      else if r \<le> 0x7FF then [chr (0xC0 + r div 64), chr (0x80 + r mod 64)]
      else if 0x10FFFF < r \<or> (0xD800 \<le> r \<and> r \<le> 0xDFFF) then [CHR 0xEF, CHR 0xBF, CHR 0xBD]
      else if r \<le> 0xFFFF then
        [chr (0xE0 + r div 4096), chr (0x80 + (r div 64) mod 64), chr (0x80 + r mod 64)]
      else
        [chr (0xF0 + r div 262144), chr (0x80 + (r div 4096) mod 64),
         chr (0x80 + (r div 64) mod 64), chr (0x80 + r mod 64)])"

text \<open>\<^verbatim>\<open>utf8.ValidString\<close>: every byte belongs to a well-formed sequence.\<close>

lemma DecodeRune_size: "s \<noteq> [] \<Longrightarrow> 1 \<le> snd (DecodeRune s) \<and> snd (DecodeRune s) \<le> 4"
  by (cases s) (simp_all add: DecodeRune_def Let_def)

lemma DecodeRune_pos: "(r, n) = DecodeRune (c # cs) \<Longrightarrow> 0 < n"
  using DecodeRune_size [of "c # cs"] by (cases "DecodeRune (c # cs)") auto

function ValidString :: "string \<Rightarrow> bool" where
  "ValidString s =
     (if s = [] then True
      else
        let (r, size) = DecodeRune s in
        if r = RuneError \<and> size = 1 then False else ValidString (drop size s))"
  by pat_completeness auto
termination ValidString
  by (relation "measure length") (auto dest: DecodeRune_pos simp: neq_Nil_conv)

declare ValidString.simps [simp del]

text \<open>
  What the JSON encoder and decoder both do to a string (\<^verbatim>\<open>strings.ToValidUTF8\<close> with U+FFFD for
  every byte, one replacement per ill-formed byte): each byte that starts no well-formed sequence
  becomes the three bytes of U+FFFD.
\<close>

function coerceUTF8 :: "string \<Rightarrow> string" where
  "coerceUTF8 s =
     (if s = [] then []
      else
        let (r, size) = DecodeRune s in
        if r = RuneError \<and> size = 1 then [CHR 0xEF, CHR 0xBF, CHR 0xBD] @ coerceUTF8 (drop 1 s)
        else take size s @ coerceUTF8 (drop size s))"
  by pat_completeness auto
termination coerceUTF8
  by (relation "measure length") (auto dest: DecodeRune_pos simp: neq_Nil_conv)

declare coerceUTF8.simps [simp del]

section \<open>The library: JSON (package encoding/json)\<close>

text \<open>
  The record type of \<^verbatim>\<open>db/types.go\<close>: a struct of two strings, with the JSON field names
  \<^verbatim>\<open>key\<close> and \<^verbatim>\<open>value\<close>.
\<close>

record KVPair =
  Key :: string
  Value :: string

subsection \<open>Encoding\<close>

text \<open>
  \<^verbatim>\<open>json.Marshal\<close> escapes HTML (\<^verbatim>\<open>escapeHTML = true\<close>).  A byte below 0x80 is written as it
  is when \<^verbatim>\<open>htmlSafeSet\<close> holds of it: every byte from 0x20 on but the double quote, the
  backslash, \<^verbatim>\<open><\<close>, \<^verbatim>\<open>>\<close> and \<^verbatim>\<open>&\<close>.
\<close>

definition htmlSafeSet :: "char \<Rightarrow> bool" where
  "htmlSafeSet c =
     (0x20 \<le> byte c \<and> byte c < 0x80 \<and> c \<noteq> DQ \<and> c \<noteq> BSL
        \<and> c \<noteq> CHR ''<'' \<and> c \<noteq> CHR ''>'' \<and> c \<noteq> CHR ''&'')"

definition hex :: "nat \<Rightarrow> char" where
  "hex n = ''0123456789abcdef'' ! n"

text \<open>The escape of a byte below 0x80 that is not in \<^verbatim>\<open>htmlSafeSet\<close> (Go 1.22 and later).\<close>

definition escapeByte :: "char \<Rightarrow> string" where
  "escapeByte c =
     (if c = BSL \<or> c = DQ then [BSL, c]
      else if c = CHR 0x08 then [BSL, CHR ''b'']
      else if c = CHR 0x0C then [BSL, CHR ''f'']
      else if c = LF then [BSL, CHR ''n'']
      else if c = CR then [BSL, CHR ''r'']
      else if c = CHR 0x09 then [BSL, CHR ''t'']
      else [BSL, CHR ''u'', CHR ''0'', CHR ''0'', hex (byte c div 16), hex (byte c mod 16)])"

text \<open>
  The loop of \<^verbatim>\<open>appendString\<close> over the source string: what is written between the two
  double quotes.  An ill-formed byte is written as the escape of U+FFFD; U+2028 and U+2029 are
  escaped; every other rune is copied.
\<close>

function appendString_loop :: "string \<Rightarrow> string" where
  "appendString_loop src =
     (case src of
        [] \<Rightarrow> []
      | c # rest \<Rightarrow>
          if byte c < 0x80 then
            (if htmlSafeSet c then [c] else escapeByte c) @ appendString_loop rest
          else
            let (r, size) = DecodeRune src in
            if r = RuneError \<and> size = 1 then
              [BSL, CHR ''u'', CHR ''f'', CHR ''f'', CHR ''f'', CHR ''d'']
                @ appendString_loop (drop size src)
            else if r = 0x2028 \<or> r = 0x2029 then
              [BSL, CHR ''u'', CHR ''2'', CHR ''0'', CHR ''2'', hex (r mod 16)]
                @ appendString_loop (drop size src)
            else take size src @ appendString_loop (drop size src))"
  by pat_completeness auto
termination appendString_loop
  by (relation "measure length") (auto dest: DecodeRune_pos simp: neq_Nil_conv)

declare appendString_loop.simps [simp del]

definition appendString :: "string \<Rightarrow> string" where
  "appendString src = [DQ] @ appendString_loop src @ [DQ]"

text \<open>
  \<^verbatim>\<open>json.Marshal\<close> of a \<^verbatim>\<open>KVPair\<close>: the two fields in the order of the struct, under their
  tag names.  For a struct of strings it has no error to return; the result keeps the type of
  the Go function.
\<close>

definition Marshal :: "KVPair \<Rightarrow> error + string" where
  "Marshal entry =
     Inr (''{'' @ [DQ] @ ''key'' @ [DQ] @ '':'' @ appendString (Key entry)
            @ '','' @ [DQ] @ ''value'' @ [DQ] @ '':'' @ appendString (Value entry) @ ''}'')"

subsection \<open>Decoding: strings\<close>

definition isSpace :: "char \<Rightarrow> bool" where
  "isSpace c = (c = CHR '' '' \<or> c = CHR 0x09 \<or> c = CR \<or> c = LF)"

definition skip_ws :: "string \<Rightarrow> string" where
  "skip_ws s = dropWhile isSpace s"

definition isDigit :: "char \<Rightarrow> bool" where
  "isDigit c = (byte (CHR ''0'') \<le> byte c \<and> byte c \<le> byte (CHR ''9''))"

definition hexval :: "char \<Rightarrow> nat option" where
  "hexval c =
     (if isDigit c then Some (byte c - byte (CHR ''0''))
      else if byte (CHR ''a'') \<le> byte c \<and> byte c \<le> byte (CHR ''f'') then
        Some (byte c - byte (CHR ''a'') + 10)
      else if byte (CHR ''A'') \<le> byte c \<and> byte c \<le> byte (CHR ''F'') then
        Some (byte c - byte (CHR ''A'') + 10)
      else None)"

text \<open>
  \<^verbatim>\<open>getu4\<close>: the number written by the four hexadecimal digits of an escape \<^verbatim>\<open>\uXXXX\<close> at
  the start of \<open>s\<close>; \<open>None\<close> stands for Go's \<open>-1\<close>.
\<close>

definition getu4 :: "string \<Rightarrow> nat option" where
  "getu4 s =
     (case s of
        b # u # h1 # h2 # h3 # h4 # _ \<Rightarrow>
          if b \<noteq> BSL \<or> u \<noteq> CHR ''u'' then None
          else
            (case (hexval h1, hexval h2, hexval h3, hexval h4) of
               (Some a, Some b, Some c, Some d) \<Rightarrow> Some (((a * 16 + b) * 16 + c) * 16 + d)
             | _ \<Rightarrow> None)
      | _ \<Rightarrow> None)"

text \<open>\<^verbatim>\<open>utf16.DecodeRune\<close>: the rune of a surrogate pair, U+FFFD when the pair is not one.\<close>

definition utf16_DecodeRune :: "nat \<Rightarrow> nat option \<Rightarrow> nat" where
  "utf16_DecodeRune r1 r2 =
     (case r2 of
        None \<Rightarrow> RuneError
      | Some r2' \<Rightarrow>
          if 0xD800 \<le> r1 \<and> r1 < 0xDC00 \<and> 0xDC00 \<le> r2' \<and> r2' < 0xE000 then
            (r1 - 0xD800) * 1024 + (r2' - 0xDC00) + 0x10000
          else RuneError)"

definition prepend :: "string \<Rightarrow> (string \<times> string) option \<Rightarrow> (string \<times> string) option" where
  "prepend x res = (case res of None \<Rightarrow> None | Some (v, rest) \<Rightarrow> Some (x @ v, rest))"

text \<open>
  A JSON string literal, read from just after its opening quote: the scanner's check of the
  syntax (\<^verbatim>\<open>stateInString\<close> and its escape states) and \<^verbatim>\<open>unquoteBytes\<close> in one pass.  The
  result is the decoded string and the input after the closing quote; \<open>None\<close> is a syntax
  error (a control character, a bad escape, no closing quote).  Bytes from 0x80 on are decoded
  and encoded again, which coerces them to well-formed UTF-8.
\<close>

function unquote_loop :: "string \<Rightarrow> (string \<times> string) option" where
  "unquote_loop s =
     (case s of
        [] \<Rightarrow> None
      | c # rest \<Rightarrow>
          if c = DQ then Some ([], rest)
          else if c = BSL then
            (case rest of
               [] \<Rightarrow> None
             | e # rest' \<Rightarrow>
                 if e = DQ \<or> e = BSL \<or> e = CHR ''/'' then prepend [e] (unquote_loop rest')
                 else if e = CHR ''b'' then prepend [CHR 0x08] (unquote_loop rest')
                 else if e = CHR ''f'' then prepend [CHR 0x0C] (unquote_loop rest')
                 else if e = CHR ''n'' then prepend [LF] (unquote_loop rest')
                 else if e = CHR ''r'' then prepend [CR] (unquote_loop rest')
                 else if e = CHR ''t'' then prepend [CHR 0x09] (unquote_loop rest')
                 else if e = CHR ''u'' then
                   (case getu4 s of
                      None \<Rightarrow> None
                    | Some rr \<Rightarrow>
                        if 0xD800 \<le> rr \<and> rr < 0xE000 then
                          (let dec = utf16_DecodeRune rr (getu4 (drop 6 s)) in
                           if dec \<noteq> RuneError then
                             prepend (EncodeRune dec) (unquote_loop (drop 12 s))
                           else prepend (EncodeRune RuneError) (unquote_loop (drop 6 s)))
                        else prepend (EncodeRune rr) (unquote_loop (drop 6 s)))
                 else None)
          else if byte c < 0x20 then None
          else if byte c < 0x80 then prepend [c] (unquote_loop rest)
          else
            let (rr, size) = DecodeRune s in
            prepend (EncodeRune rr) (unquote_loop (drop size s)))"
  by pat_completeness auto
termination unquote_loop
  by (relation "measure length") (auto dest: DecodeRune_pos)

declare unquote_loop.simps [simp del]

subsection \<open>Decoding: values\<close>

text \<open>
  A number literal at the start of \<open>s\<close> (the scanner's states \<^verbatim>\<open>stateNeg\<close>, \<^verbatim>\<open>state0\<close>,
  \<^verbatim>\<open>state1\<close>, \<^verbatim>\<open>stateDot\<close>, \<^verbatim>\<open>stateE\<close> and their followers): the input after it, or \<open>None\<close>
  when the literal is malformed.  The store has no numeric field, so the value is not kept.
\<close>

definition scan_exponent :: "string \<Rightarrow> string option" where
  "scan_exponent s =
     (case s of
        [] \<Rightarrow> Some s
      | e # r \<Rightarrow>
          if e = CHR ''e'' \<or> e = CHR ''E'' then
            (let r' = (case r of [] \<Rightarrow> r
                       | g # r'' \<Rightarrow> if g = CHR ''+'' \<or> g = CHR ''-'' then r'' else r)
             in case r' of
                  [] \<Rightarrow> None
                | d # r'' \<Rightarrow> if isDigit d then Some (dropWhile isDigit r'') else None)
          else Some s)"

definition scan_fraction :: "string \<Rightarrow> string option" where
  "scan_fraction s =
     (case s of
        [] \<Rightarrow> Some s
      | p # r \<Rightarrow>
          if p = CHR ''.'' then
            (case r of
               [] \<Rightarrow> None
             | d # r' \<Rightarrow> if isDigit d then scan_exponent (dropWhile isDigit r') else None)
          else scan_exponent s)"

definition scan_number :: "string \<Rightarrow> string option" where
  "scan_number s =
     (let s1 = (case s of [] \<Rightarrow> s | m # r \<Rightarrow> if m = CHR ''-'' then r else s)
      in case s1 of
           [] \<Rightarrow> None
         | d # r \<Rightarrow>
             if d = CHR ''0'' then scan_fraction r
             else if isDigit d then scan_fraction (dropWhile isDigit r)
             else None)"

datatype json =
    JNull
  | JBool bool
  | JNumber
  | JString string
  | JArray "json list"
  | JObject "(string \<times> json) list"

lemma skip_ws_le: "length (skip_ws s) \<le> length s"
  by (simp add: skip_ws_def length_dropWhile_le)

lemma skip_ws_Cons: "skip_ws s = c # r \<Longrightarrow> length r < length s"
  using skip_ws_le [of s] by simp

lemma skip_ws_Cons2: "skip_ws s = c # r \<Longrightarrow> length (skip_ws r) < length s"
  using skip_ws_le [of s] skip_ws_le [of r] by simp

text \<open>\<^verbatim>\<open>maxNestingDepth\<close> of the scanner: a document nested deeper is a syntax error.\<close>

definition maxNestingDepth :: nat where
  "maxNestingDepth = 10000"

text \<open>
  The JSON grammar by recursive descent, from the first byte of a value (white space already
  skipped): the value read and the input after it, or \<open>None\<close> for a syntax error.  \<open>d\<close> is
  the number of arrays and objects open around the value.  A value, an element or a member
  always consumes input; the tests \<open>length r < length s\<close> say so where the recursion goes on
  with what an inner call has left.
\<close>

function parse_value :: "nat \<Rightarrow> string \<Rightarrow> (json \<times> string) option"
  and parse_elems :: "nat \<Rightarrow> string \<Rightarrow> (json list \<times> string) option"
  and parse_members :: "nat \<Rightarrow> string \<Rightarrow> ((string \<times> json) list \<times> string) option"
where
  "parse_value d s =
     (case s of
        [] \<Rightarrow> None
      | c # r \<Rightarrow>
          if c = CHR ''{'' then
            (if maxNestingDepth \<le> d then None
             else
               (case skip_ws r of
                  [] \<Rightarrow> None
                | c' # r' \<Rightarrow>
                    if c' = CHR ''}'' then Some (JObject [], r')
                    else
                      (case parse_members (Suc d) (skip_ws r) of
                         None \<Rightarrow> None
                       | Some (ms, r'') \<Rightarrow> Some (JObject ms, r''))))
          else if c = CHR ''['' then
            (if maxNestingDepth \<le> d then None
             else
               (case skip_ws r of
                  [] \<Rightarrow> None
                | c' # r' \<Rightarrow>
                    if c' = CHR '']'' then Some (JArray [], r')
                    else
                      (case parse_elems (Suc d) (skip_ws r) of
                         None \<Rightarrow> None
                       | Some (vs, r'') \<Rightarrow> Some (JArray vs, r''))))
          else if c = DQ then
            (case unquote_loop r of None \<Rightarrow> None | Some (v, r') \<Rightarrow> Some (JString v, r'))
          else if take 4 s = ''true'' then Some (JBool True, drop 4 s)
          else if take 5 s = ''false'' then Some (JBool False, drop 5 s)
          else if take 4 s = ''null'' then Some (JNull, drop 4 s)
          else if c = CHR ''-'' \<or> isDigit c then
            (case scan_number s of None \<Rightarrow> None | Some r' \<Rightarrow> Some (JNumber, r'))
          else None)"
| "parse_elems d s =
     (case parse_value d s of
        None \<Rightarrow> None
      | Some (v, r) \<Rightarrow>
          if length r < length s then
            (case skip_ws r of
               [] \<Rightarrow> None
             | c # r' \<Rightarrow>
                 if c = CHR '','' then
                   (case parse_elems d (skip_ws r') of
                      None \<Rightarrow> None
                    | Some (vs, r'') \<Rightarrow> Some (v # vs, r''))
                 else if c = CHR '']'' then Some ([v], r')
                 else None)
          else None)"
| "parse_members d s =
     (case s of
        [] \<Rightarrow> None
      | q # r \<Rightarrow>
          if q \<noteq> DQ then None
          else
            (case unquote_loop r of
               None \<Rightarrow> None
             | Some (k, r1) \<Rightarrow>
                 if length r1 < length r then
                   (case skip_ws r1 of
                      [] \<Rightarrow> None
                    | c # r2 \<Rightarrow>
                        if c \<noteq> CHR '':'' then None
                        else
                          (case parse_value d (skip_ws r2) of
                             None \<Rightarrow> None
                           | Some (v, r3) \<Rightarrow>
                               if length r3 < length (skip_ws r2) then
                                 (case skip_ws r3 of
                                    [] \<Rightarrow> None
                                  | c' # r4 \<Rightarrow>
                                      if c' = CHR '','' then
                                        (case parse_members d (skip_ws r4) of
                                           None \<Rightarrow> None
                                         | Some (ms, r5) \<Rightarrow> Some ((k, v) # ms, r5))
                                      else if c' = CHR ''}'' then Some ([(k, v)], r4)
                                      else None)
                               else None))
                 else None))"
  by pat_completeness auto
termination parse_value
  apply (relation "measure (\<lambda>x. case x of Inl (d, s) \<Rightarrow> 2 * length s
            | Inr (Inl (d, s)) \<Rightarrow> 2 * length s + 1
            | Inr (Inr (d, s)) \<Rightarrow> 2 * length s + 1)")
  apply (auto dest: skip_ws_Cons skip_ws_Cons2 simp: le_imp_less_Suc [OF skip_ws_le])
  subgoal premises p for d r k r1 r2 v r3 r4
    using skip_ws_Cons2 [OF p(6)] skip_ws_le [of r2] skip_ws_Cons [OF p(3)] p(2) p(5)
    by linarith
  done

declare parse_value.simps [simp del] parse_elems.simps [simp del] parse_members.simps [simp del]

subsection \<open>Decoding: into a KVPair\<close>

text \<open>
  A member of a JSON object goes to the field whose name it has, or else to the field whose
  name it has up to case (\<^verbatim>\<open>foldName\<close>).  Go folds a rune to the least rune of its case
  orbit; the only runes beyond ASCII whose orbit reaches ASCII are U+212A (Kelvin sign, to
  \<open>K\<close>) and U+017F (long s, to \<open>S\<close>), so no other rune can make a name equal to a field's,
  and \<open>foldRune\<close> leaves the others as they are.
\<close>

definition foldRune :: "nat \<Rightarrow> nat" where
  "foldRune r = (if r = 0x212A then 0x4B else if r = 0x17F then 0x53 else r)"

function foldName :: "string \<Rightarrow> string" where
  "foldName s =
     (case s of
        [] \<Rightarrow> []
      | c # rest \<Rightarrow>
          if byte c < 0x80 then
            (if byte (CHR ''a'') \<le> byte c \<and> byte c \<le> byte (CHR ''z'')
             then chr (byte c - 32) else c) # foldName rest
          else
            let (r, n) = DecodeRune s in EncodeRune (foldRune r) @ foldName (drop n s))"
  by pat_completeness auto
termination foldName
  by (relation "measure length") (auto dest: DecodeRune_pos)

declare foldName.simps [simp del]

datatype field = FieldKey | FieldValue

definition findField :: "string \<Rightarrow> field option" where
  "findField name =
     (if name = ''key'' then Some FieldKey
      else if name = ''value'' then Some FieldValue
      else if foldName name = ''KEY'' then Some FieldKey
      else if foldName name = ''VALUE'' then Some FieldValue
      else None)"

definition setField :: "field \<Rightarrow> string \<Rightarrow> KVPair \<Rightarrow> KVPair" where
  "setField f v entry = (case f of FieldKey \<Rightarrow> entry\<lparr>Key := v\<rparr> | FieldValue \<Rightarrow> entry\<lparr>Value := v\<rparr>)"

text \<open>
  The members of an object, stored in order: a string goes into its field, \<^verbatim>\<open>null\<close> leaves
  the field as it is, any other value for a field is an \<^verbatim>\<open>UnmarshalTypeError\<close>, and a member
  that names no field is skipped.
\<close>

fun object :: "(string \<times> json) list \<Rightarrow> KVPair \<Rightarrow> error + KVPair" where
  "object [] entry = Inr entry"
| "object ((name, v) # ms) entry =
     (case findField name of
        None \<Rightarrow> object ms entry
      | Some f \<Rightarrow>
          (case v of
             JString str \<Rightarrow> object ms (setField f str entry)
           | JNull \<Rightarrow> object ms entry
           | _ \<Rightarrow> Inl EncodingError))"

text \<open>
  \<^verbatim>\<open>json.Unmarshal(data, &entry)\<close> for a zero \<^verbatim>\<open>entry\<close>: the input is one JSON value between
  optional white space (\<^verbatim>\<open>checkValid\<close>), and the value is an object or \<^verbatim>\<open>null\<close>.  Every
  failure, of syntax or of type, is an \<open>EncodingError\<close>.
\<close>

definition Unmarshal :: "string \<Rightarrow> error + KVPair" where
  "Unmarshal data =
     (case parse_value 0 (skip_ws data) of
        None \<Rightarrow> Inl EncodingError
      | Some (v, r) \<Rightarrow>
          if skip_ws r \<noteq> [] then Inl EncodingError
          else
            (case v of
               JNull \<Rightarrow> Inr \<lparr>Key = [], Value = []\<rparr>
             | JObject ms \<Rightarrow> object ms \<lparr>Key = [], Value = []\<rparr>
             | _ \<Rightarrow> Inl EncodingError))"

section \<open>The library: files and buffered input (packages os and bufio)\<close>

text \<open>
  The file system maps a path to what \<^verbatim>\<open>os.OpenFile\<close> finds there: nothing, something that
  cannot be opened for reading and writing (no permission, a directory), or a regular file
  with its bytes.  An \<^verbatim>\<open>os.File\<close> is a handle on a path, open or closed.  The store opens its
  file with \<^verbatim>\<open>O_APPEND\<close>, so a write always goes to the end of the file, and each read of
  Get starts with a seek to an absolute offset: no call depends on the cursor another call
  left, and the cursor is not part of the state.  Failures of the device (a full disk, a short
  write) are not modelled: an operation on an open handle of a regular file succeeds.
\<close>

datatype entry = Absent | Denied | Regular string

type_synonym filesystem = "string \<Rightarrow> entry"

record File =
  name :: string
  closed :: bool

text \<open>\<^verbatim>\<open>os.OpenFile(path, os.O_CREATE|os.O_RDWR|os.O_APPEND, 0644)\<close>.\<close>

definition OpenFile :: "string \<Rightarrow> filesystem \<Rightarrow> error + (File \<times> filesystem)" where
  "OpenFile p fs =
     (case fs p of
        Denied \<Rightarrow> Inl StorageError
      | Absent \<Rightarrow> Inr (\<lparr>name = p, closed = False\<rparr>, fs(p := Regular []))
      | Regular _ \<Rightarrow> Inr (\<lparr>name = p, closed = False\<rparr>, fs))"

text \<open>The bytes of the file behind a handle.\<close>

definition contents :: "File \<Rightarrow> filesystem \<Rightarrow> string option" where
  "contents f fs = (case fs (name f) of Regular b \<Rightarrow> Some b | _ \<Rightarrow> None)"

text \<open>\<^verbatim>\<open>file.Seek(0, os.SEEK_END)\<close>: the size of the file.\<close>

definition Seek_End :: "File \<Rightarrow> filesystem \<Rightarrow> error + nat" where
  "Seek_End f fs =
     (if closed f then Inl StorageError
      else case contents f fs of None \<Rightarrow> Inl StorageError | Some b \<Rightarrow> Inr (length b))"

text \<open>\<^verbatim>\<open>file.Seek(offset, os.SEEK_SET)\<close>: the position to read from next.\<close>

definition Seek_Set :: "File \<Rightarrow> nat \<Rightarrow> error + nat" where
  "Seek_Set f offset = (if closed f then Inl StorageError else Inr offset)"

text \<open>\<^verbatim>\<open>file.Write\<close> on a handle opened with \<^verbatim>\<open>O_APPEND\<close>.\<close>

definition Write :: "File \<Rightarrow> string \<Rightarrow> filesystem \<Rightarrow> error + filesystem" where
  "Write f bytes fs =
     (if closed f then Inl StorageError
      else case contents f fs of
             None \<Rightarrow> Inl StorageError
           | Some b \<Rightarrow> Inr (fs(name f := Regular (b @ bytes))))"

text \<open>\<^verbatim>\<open>file.Close()\<close>: closing a closed file is an error.\<close>

definition File_Close :: "File \<Rightarrow> error option \<times> File" where
  "File_Close f = (if closed f then (Some StorageError, f) else (None, f\<lparr>closed := True\<rparr>))"

text \<open>
  \<^verbatim>\<open>bufio.NewReader(file).ReadString('\n')\<close> with the cursor at \<open>pos\<close>: the bytes up to and
  including the first line feed.  When the file ends before one, ReadString returns what it
  has read together with \<^verbatim>\<open>io.EOF\<close>, and the caller sees the error.
\<close>

definition ReadString :: "File \<Rightarrow> nat \<Rightarrow> filesystem \<Rightarrow> error + string" where
  "ReadString f pos fs =
     (if closed f then Inl StorageError
      else case contents f fs of
             None \<Rightarrow> Inl StorageError
           | Some b \<Rightarrow>
               let rest = drop pos b; line = takeWhile (\<lambda>c. c \<noteq> LF) rest in
               if length line < length rest then Inr (line @ [LF]) else Inl StorageError)"

text \<open>
  \<^verbatim>\<open>bufio.Scanner\<close> with its default split function \<^verbatim>\<open>ScanLines\<close>, on the bytes not yet
  read: the next line without its line feed and without one carriage return before it
  (\<^verbatim>\<open>dropCR\<close>), and the bytes after it; \<open>None\<close> at the end of the input.  A last line without
  a line feed is a line.  A line that does not fit the buffer of \<^verbatim>\<open>MaxScanTokenSize\<close> bytes
  (\<^verbatim>\<open>64 * 1024\<close>) stops the scan with \<^verbatim>\<open>ErrTooLong\<close>.
\<close>

definition MaxScanTokenSize :: nat where
  "MaxScanTokenSize = 65536"

definition dropCR :: "string \<Rightarrow> string" where
  "dropCR line = (if line \<noteq> [] \<and> last line = CR then butlast line else line)"

definition Scan :: "string \<Rightarrow> error + (string \<times> string) option" where
  "Scan buf =
     (if buf = [] then Inr None
      else
        let line = takeWhile (\<lambda>c. c \<noteq> LF) buf in
        if MaxScanTokenSize \<le> length line then Inl StorageError
        else Inr (Some (dropCR line, drop (length line + 1) buf)))"

section \<open>The store (package db)\<close>

text \<open>
  The struct \<^verbatim>\<open>SimpleDB\<close>.  The mutex has no field here: the model runs one call at a time.
  Offsets are \<^verbatim>\<open>int64\<close> in the code; they are sizes of, and positions in, one file, which the
  operating system keeps below \<open>2^63\<close>, so they are natural numbers here.
\<close>

record SimpleDB =
  data :: "string \<rightharpoonup> nat"
  "file" :: File
  path :: string

text \<open>
  The loop of \<^verbatim>\<open>loadIndex\<close> over the lines of the scanner: \<open>buf\<close> is what the scanner has not
  read yet, \<open>offset\<close> the local variable of the code.  The result is the error returned (that
  of \<^verbatim>\<open>json.Unmarshal\<close> from inside the loop, or \<^verbatim>\<open>scanner.Err()\<close> after it) and the index as
  the loop leaves it.
\<close>

function loadIndex_loop ::
  "string \<Rightarrow> nat \<Rightarrow> (string \<rightharpoonup> nat) \<Rightarrow> error option \<times> (string \<rightharpoonup> nat)" where
  "loadIndex_loop buf offset idx =
     (case Scan buf of
        Inl err \<Rightarrow> (Some err, idx)
      | Inr None \<Rightarrow> (None, idx)
      | Inr (Some (line, rest)) \<Rightarrow>
          (case Unmarshal line of
             Inl err \<Rightarrow> (Some err, idx)
           | Inr entry \<Rightarrow>
               loadIndex_loop rest (offset + (length line + 1)) (idx(Key entry \<mapsto> offset))))"
  by pat_completeness auto

lemma Scan_shorter: "Scan buf = Inr (Some (line, rest)) \<Longrightarrow> length rest < length buf"
  by (cases buf) (auto simp: Scan_def Let_def split: if_splits)

termination loadIndex_loop
  by (relation "measure (\<lambda>(buf, offset, idx). length buf)") (auto dest: Scan_shorter)

declare loadIndex_loop.simps [simp del]

text \<open>
  The lines that the loop of \<^verbatim>\<open>loadIndex\<close> gets from the scanner when no line stops it:
  all lines up to the end of the input, or up to a line that is too long.
\<close>

function scanned_lines :: "string \<Rightarrow> string list" where
  "scanned_lines buf =
     (case Scan buf of
        Inl err \<Rightarrow> []
      | Inr None \<Rightarrow> []
      | Inr (Some (line, rest)) \<Rightarrow> line # scanned_lines rest)"
  by pat_completeness auto
termination scanned_lines
  by (relation "measure length") (auto dest: Scan_shorter)

declare scanned_lines.simps [simp del]

definition loadIndex :: "SimpleDB \<Rightarrow> filesystem \<Rightarrow> error option \<times> SimpleDB" where
  "loadIndex db fs =
     (case contents (file db) fs of
        None \<Rightarrow> (Some StorageError, db)
      | Some b \<Rightarrow>
          (case loadIndex_loop b 0 (data db) of (err, idx) \<Rightarrow> (err, db\<lparr>data := idx\<rparr>)))"

definition OpenDB :: "string \<Rightarrow> filesystem \<Rightarrow> (error + SimpleDB) \<times> filesystem" where
  "OpenDB p fs =
     (case OpenFile p fs of
        Inl err \<Rightarrow> (Inl err, fs)
      | Inr (f, fs') \<Rightarrow>
          let db = \<lparr>data = Map.empty, file = f, path = p\<rparr> in
          (case loadIndex db fs' of
             (Some err, _) \<Rightarrow> (Inl err, fs')
           | (None, db') \<Rightarrow> (Inr db', fs')))"

definition Set :: "string \<Rightarrow> string \<Rightarrow> SimpleDB \<Rightarrow> filesystem \<Rightarrow> error option \<times> SimpleDB \<times> filesystem" where
  "Set key val db fs =
     (let entry = \<lparr>Key = key, Value = val\<rparr> in
      case Marshal entry of
        Inl err \<Rightarrow> (Some err, db, fs)
      | Inr bytes \<Rightarrow>
          (case Seek_End (file db) fs of
             Inl err \<Rightarrow> (Some err, db, fs)
           | Inr offset \<Rightarrow>
               (case Write (file db) (bytes @ [LF]) fs of
                  Inl err \<Rightarrow> (Some err, db, fs)
                | Inr fs' \<Rightarrow> (None, db\<lparr>data := (data db)(key \<mapsto> offset)\<rparr>, fs'))))"

text \<open>Get changes neither the index nor the file, so it returns its result only.\<close>

definition Get :: "string \<Rightarrow> SimpleDB \<Rightarrow> filesystem \<Rightarrow> error + string" where
  "Get key db fs =
     (case data db key of
        None \<Rightarrow> Inl KeyNotFound
      | Some offset \<Rightarrow>
          (case Seek_Set (file db) offset of
             Inl err \<Rightarrow> Inl err
           | Inr pos \<Rightarrow>
               (case ReadString (file db) pos fs of
                  Inl err \<Rightarrow> Inl err
                | Inr line \<Rightarrow>
                    (case Unmarshal line of
                       Inl err \<Rightarrow> Inl err
                     | Inr entry \<Rightarrow> Inr (Value entry)))))"

definition Delete :: "string \<Rightarrow> SimpleDB \<Rightarrow> error option \<times> SimpleDB" where
  "Delete key db =
     (case data db key of
        None \<Rightarrow> (Some KeyNotFound, db)
      | Some _ \<Rightarrow> (None, db\<lparr>data := (data db)(key := None)\<rparr>))"

definition Close :: "SimpleDB \<Rightarrow> error option \<times> SimpleDB" where
  "Close db = (case File_Close (file db) of (err, f) \<Rightarrow> (err, db\<lparr>file := f\<rparr>))"

section \<open>The HTTP handlers (package main)\<close>

text \<open>
  What a handler writes to the \<^verbatim>\<open>gin.Context\<close>: \<^verbatim>\<open>c.JSON(code, gin.H{...})\<close> with the
  members of the map, or \<^verbatim>\<open>c.Status(code)\<close>.  The handlers work on the global \<^verbatim>\<open>database\<close>;
  here it is an argument.
\<close>

datatype response = JSON nat "(string \<times> string) list" | Status nat

definition StatusOK :: nat where
  "StatusOK = 200"

definition StatusBadRequest :: nat where
  "StatusBadRequest = 400"

definition StatusNotFound :: nat where
  "StatusNotFound = 404"

definition StatusInternalServerError :: nat where
  "StatusInternalServerError = 500"

text \<open>
  \<^verbatim>\<open>handleSet\<close> gets its key and its value from \<^verbatim>\<open>c.ShouldBindJSON(&body)\<close> of the gin
  library: the result of that call is the argument \<open>bound\<close>, an error or the body with its
  two fields.  The text of an error of the store, \<^verbatim>\<open>err.Error()\<close>, is the argument \<open>message\<close>.
\<close>

definition handleSet ::
  "(error \<Rightarrow> string) \<Rightarrow> error + KVPair \<Rightarrow> SimpleDB \<Rightarrow> filesystem
     \<Rightarrow> response \<times> SimpleDB \<times> filesystem" where
  "handleSet message bound db fs =
     (case bound of
        Inl err \<Rightarrow> (JSON StatusBadRequest [(''error'', ''Invalid JSON'')], db, fs)
      | Inr body \<Rightarrow>
          (case Set (Key body) (Value body) db fs of
             (Some err, db', fs') \<Rightarrow>
               (JSON StatusInternalServerError [(''error'', message err)], db', fs')
           | (None, db', fs') \<Rightarrow> (Status StatusOK, db', fs')))"

definition handleGet :: "string \<Rightarrow> SimpleDB \<Rightarrow> filesystem \<Rightarrow> response" where
  "handleGet key db fs =
     (case Get key db fs of
        Inl err \<Rightarrow> JSON StatusNotFound [(''error'', ''Key not found'')]
      | Inr val \<Rightarrow> JSON StatusOK [(''key'', key), (''value'', val)])"

definition handleDelete :: "string \<Rightarrow> SimpleDB \<Rightarrow> response \<times> SimpleDB" where
  "handleDelete key db =
     (case Delete key db of
        (Some err, db') \<Rightarrow> (JSON StatusNotFound [(''error'', ''Key not found'')], db')
      | (None, db') \<Rightarrow> (Status StatusOK, db'))"

definition status_of :: "response \<Rightarrow> nat" where
  "status_of r = (case r of JSON code body \<Rightarrow> code | Status code \<Rightarrow> code)"

section \<open>Sequences of calls\<close>

text \<open>
  A caller's calls on one store, one after the other, and the state they leave: the store and
  the file system.
\<close>

datatype call = CallSet string string | CallGet string | CallDelete string | CallClose

fun step :: "call \<Rightarrow> SimpleDB \<times> filesystem \<Rightarrow> SimpleDB \<times> filesystem" where
  "step (CallSet k v) (db, fs) = snd (Set k v db fs)"
| "step (CallGet k) (db, fs) = (db, fs)"
| "step (CallDelete k) (db, fs) = (snd (Delete k db), fs)"
| "step CallClose (db, fs) = (snd (Close db), fs)"

fun run :: "call list \<Rightarrow> SimpleDB \<times> filesystem \<Rightarrow> SimpleDB \<times> filesystem" where
  "run [] st = st"
| "run (c # cs) st = run cs (step c st)"

text \<open>The call is a Set of the key \<open>k\<close> that succeeds in the state.\<close>

fun Set_succeeds :: "string \<Rightarrow> call \<Rightarrow> SimpleDB \<times> filesystem \<Rightarrow> bool" where
  "Set_succeeds k (CallSet k' v) (db, fs) = (k' = k \<and> fst (Set k' v db fs) = None)"
| "Set_succeeds k (CallGet k') st = False"
| "Set_succeeds k (CallDelete k') st = False"
| "Set_succeeds k CallClose st = False"

text \<open>No call of the sequence, run from the state, is a Set of \<open>k\<close> that succeeds.\<close>

fun no_Set_of :: "string \<Rightarrow> call list \<Rightarrow> SimpleDB \<times> filesystem \<Rightarrow> bool" where
  "no_Set_of k [] st = True"
| "no_Set_of k (c # cs) st = (\<not> Set_succeeds k c st \<and> no_Set_of k cs (step c st))"

section \<open>The records of a log and the history of a store\<close>

text \<open>
  The invariant of the index speaks of the records in the log and of the record most recently
  appended for a key.  These definitions follow the words of the specification, not the code
  of \<^verbatim>\<open>loadIndex\<close>: the records of a file are its lines, each from the byte after the line
  feed of the one before it, with the byte offset at which it starts.
\<close>

function records_from :: "nat \<Rightarrow> string \<Rightarrow> (nat \<times> string) list" where
  "records_from offset buf =
     (if buf = [] then []
      else
        let line = takeWhile (\<lambda>c. c \<noteq> LF) buf in
        (offset, line) # records_from (offset + length line + 1) (drop (length line + 1) buf))"
  by pat_completeness auto
termination records_from
  by (relation "measure (\<lambda>(offset, buf). length buf)") auto

declare records_from.simps [simp del]

text \<open>
  A record of the history: the key it is a record for, the offset of its first byte in the
  log, and its bytes without the line feed.
\<close>

type_synonym appended = "string \<times> nat \<times> string"

text \<open>
  The records that the file holds when the store is opened, in the order of the file; the key
  of a record is the key it decodes to.
\<close>

definition record_of_line :: "nat \<times> string \<Rightarrow> appended option" where
  "record_of_line r =
     (case r of (offset, line) \<Rightarrow>
        (case Unmarshal (dropCR line) of
           Inl err \<Rightarrow> None
         | Inr entry \<Rightarrow> Some (Key entry, offset, line)))"

definition scanned_records :: "string \<Rightarrow> appended list" where
  "scanned_records b = List.map_filter record_of_line (records_from 0 b)"

text \<open>
  The records that the calls of a sequence append, in order: one for each Set that succeeds,
  for the key of the call, at the end of the file as it is before the call.
\<close>

definition record_of_call :: "call \<Rightarrow> SimpleDB \<times> filesystem \<Rightarrow> appended list" where
  "record_of_call c st =
     (case c of
        CallSet k v \<Rightarrow>
          (if fst (Set k v (fst st) (snd st)) = None then
             (case (contents (file (fst st)) (snd st), Marshal \<lparr>Key = k, Value = v\<rparr>) of
                (Some b, Inr bytes) \<Rightarrow> [(k, length b, bytes)]
              | _ \<Rightarrow> [])
           else [])
      | _ \<Rightarrow> [])"

fun appended_records :: "call list \<Rightarrow> SimpleDB \<times> filesystem \<Rightarrow> appended list" where
  "appended_records [] st = []"
| "appended_records (c # cs) st = record_of_call c st @ appended_records cs (step c st)"

text \<open>The offset and the bytes of the last record of a history that is for the key.\<close>

definition latest :: "string \<Rightarrow> appended list \<Rightarrow> (nat \<times> string) option" where
  "latest k h = (case filter (\<lambda>r. fst r = k) h of [] \<Rightarrow> None | rs \<Rightarrow> Some (snd (last rs)))"

text \<open>The bytes of the file at a path when the store is opened; a new file is empty.\<close>

definition bytes_at :: "string \<Rightarrow> filesystem \<Rightarrow> string" where
  "bytes_at p fs = (case fs p of Regular b \<Rightarrow> b | _ \<Rightarrow> [])"

text \<open>
  No carriage return stands right before a line feed, unless that line feed is the last byte
  of the file.
\<close>

fun CRLF_only_at_end :: "string \<Rightarrow> bool" where
  "CRLF_only_at_end (a # b # c # r) = (\<not> (a = CR \<and> b = LF) \<and> CRLF_only_at_end (b # c # r))"
| "CRLF_only_at_end [a, b] = True"
| "CRLF_only_at_end [a] = True"
| "CRLF_only_at_end [] = True"

section \<open>Example states\<close>

text \<open>
  The records \<^verbatim>\<open>{"key":"a","value":"1"}\<close> and \<^verbatim>\<open>{"key":"b","value":"2"}\<close>, and a line that
  is not JSON.
\<close>

definition exampleLine :: string where
  "exampleLine =
     ''{'' @ [DQ] @ ''key'' @ [DQ] @ '':'' @ [DQ] @ ''a'' @ [DQ] @ '',''
       @ [DQ] @ ''value'' @ [DQ] @ '':'' @ [DQ] @ ''1'' @ [DQ] @ ''}''"

definition exampleLine2 :: string where
  "exampleLine2 =
     ''{'' @ [DQ] @ ''key'' @ [DQ] @ '':'' @ [DQ] @ ''b'' @ [DQ] @ '',''
       @ [DQ] @ ''value'' @ [DQ] @ '':'' @ [DQ] @ ''2'' @ [DQ] @ ''}''"

definition corruptedLine :: string where
  "corruptedLine = ''{'' @ [DQ] @ ''key'' @ [DQ] @ '':''"

definition emptyFS :: filesystem where
  "emptyFS = (\<lambda>p. Absent)"

text \<open>An empty store just opened on a new file.\<close>

definition newDB :: SimpleDB where
  "newDB =
     \<lparr>data = Map.empty, file = \<lparr>name = ''mydb.data'', closed = False\<rparr>, path = ''mydb.data''\<rparr>"

definition newFS :: filesystem where
  "newFS = emptyFS(''mydb.data'' := Regular [])"

text \<open>An open store whose index has the key \<open>a\<close> at offset 0, and its file of one record.\<close>

definition exampleDB :: SimpleDB where
  "exampleDB =
     \<lparr>data = [''a'' \<mapsto> 0], file = \<lparr>name = ''mydb.data'', closed = False\<rparr>, path = ''mydb.data''\<rparr>"

definition exampleFS :: filesystem where
  "exampleFS = emptyFS(''mydb.data'' := Regular (exampleLine @ [LF]))"

text \<open>The same file cut off before the line feed of its record.\<close>

definition truncatedFS :: filesystem where
  "truncatedFS = emptyFS(''mydb.data'' := Regular exampleLine)"

text \<open>The file of one record, followed by a line that is not JSON and by one more record.\<close>

definition corruptedFS :: filesystem where
  "corruptedFS =
     emptyFS(''mydb.data'' :=
       Regular (exampleLine @ LF # corruptedLine @ LF # exampleLine2 @ [LF]))"

text \<open>A file of two records whose lines end with a carriage return and a line feed.\<close>

definition crlfFS :: filesystem where
  "crlfFS =
     emptyFS(''mydb.data'' := Regular (exampleLine @ CR # LF # exampleLine2 @ [CR, LF]))"

text \<open>The store that OpenDB returns for that file.\<close>

definition crlfDB :: SimpleDB where
  "crlfDB =
     \<lparr>data = [''a'' \<mapsto> 0, ''b'' \<mapsto> 24], file = \<lparr>name = ''mydb.data'', closed = False\<rparr>,
      path = ''mydb.data''\<rparr>"

definition exampleCalls :: "call list" where
  "exampleCalls =
     [CallGet ''a'', CallSet ''b'' ''2'', CallDelete ''a'', CallDelete ''b'', CallClose,
      CallSet ''a'' ''3'']"

definition witnessCalls :: "call list" where
  "witnessCalls = [CallGet ''a'', CallSet ''a'' ''1'', CallDelete ''b'']"

section \<open>The examples, evaluated\<close>

lemma Marshal_example: "Marshal \<lparr>Key = ''a'', Value = ''1''\<rparr> = Inr exampleLine"
  by code_simp

lemma Unmarshal_example:
  "Unmarshal exampleLine = Inr \<lparr>Key = ''a'', Value = ''1''\<rparr>"
  "Unmarshal (exampleLine @ [LF]) = Inr \<lparr>Key = ''a'', Value = ''1''\<rparr>"
  "Unmarshal (exampleLine @ [CR, LF]) = Inr \<lparr>Key = ''a'', Value = ''1''\<rparr>"
  "Unmarshal exampleLine2 = Inr \<lparr>Key = ''b'', Value = ''2''\<rparr>"
  "Unmarshal corruptedLine = Inl EncodingError"
  "Unmarshal [LF] = Inl EncodingError"
  by code_simp+

lemma example_lines:
  "LF \<notin> set exampleLine" "LF \<notin> set exampleLine2" "LF \<notin> set corruptedLine"
  "length exampleLine = 23" "length exampleLine2 = 23" "length corruptedLine = 7"
  "dropCR exampleLine = exampleLine" "dropCR exampleLine2 = exampleLine2"
  "dropCR corruptedLine = corruptedLine"
  by (simp_all add: exampleLine_def exampleLine2_def corruptedLine_def dropCR_def)

lemma takeWhile_line: "LF \<notin> set line \<Longrightarrow> takeWhile (\<lambda>c. c \<noteq> LF) (line @ LF # rest) = line"
  by (auto simp: takeWhile_tail)

lemma takeWhile_last_line: "LF \<notin> set line \<Longrightarrow> takeWhile (\<lambda>c. c \<noteq> LF) line = line"
  by (auto simp: takeWhile_eq_all_conv)

lemma Scan_Nil: "Scan [] = Inr None"
  by (simp add: Scan_def)

lemma Scan_line:
  "LF \<notin> set line \<Longrightarrow> length line < MaxScanTokenSize
     \<Longrightarrow> Scan (line @ LF # rest) = Inr (Some (dropCR line, rest))"
  by (simp add: Scan_def Let_def takeWhile_line)

lemma Scan_last_line:
  "line \<noteq> [] \<Longrightarrow> LF \<notin> set line \<Longrightarrow> length line < MaxScanTokenSize
     \<Longrightarrow> Scan line = Inr (Some (dropCR line, []))"
  by (simp add: Scan_def Let_def takeWhile_last_line)

lemma loadIndex_loop_Nil: "loadIndex_loop [] offset idx = (None, idx)"
  by (subst loadIndex_loop.simps) (simp add: Scan_Nil)

lemma loadIndex_loop_line:
  "Scan buf = Inr (Some (line, rest)) \<Longrightarrow> Unmarshal line = Inr entry
     \<Longrightarrow> loadIndex_loop buf offset idx
           = loadIndex_loop rest (offset + (length line + 1)) (idx(Key entry \<mapsto> offset))"
  by (subst loadIndex_loop.simps) simp

lemma OpenDB_loadIndex:
  "fs p = Regular b \<Longrightarrow> loadIndex_loop b 0 Map.empty = (None, idx)
     \<Longrightarrow> OpenDB p fs = (Inr \<lparr>data = idx, file = \<lparr>name = p, closed = False\<rparr>, path = p\<rparr>, fs)"
  by (simp add: OpenDB_def OpenFile_def loadIndex_def contents_def)

lemma OpenDB_new: "OpenDB ''mydb.data'' emptyFS = (Inr newDB, newFS)"
  by (simp add: OpenDB_def OpenFile_def loadIndex_def contents_def loadIndex_loop_Nil
        emptyFS_def newDB_def newFS_def)

lemma Set_new: "Set ''a'' ''1'' newDB newFS = (None, exampleDB, exampleFS)"
  by (simp add: Set_def Marshal_example Seek_End_def Write_def contents_def
        newDB_def newFS_def exampleDB_def exampleFS_def)

lemma OpenDB_example: "OpenDB ''mydb.data'' exampleFS = (Inr exampleDB, exampleFS)"
proof -
  have "loadIndex_loop (exampleLine @ [LF]) 0 Map.empty = (None, [''a'' \<mapsto> 0])"
    using Scan_line [of exampleLine "[]"]
    by (subst loadIndex_loop_line [where line = exampleLine and rest = "[]"
            and entry = "\<lparr>Key = ''a'', Value = ''1''\<rparr>"])
       (simp_all add: example_lines MaxScanTokenSize_def Unmarshal_example loadIndex_loop_Nil)
  then show ?thesis
    by (subst OpenDB_loadIndex) (simp_all add: exampleFS_def exampleDB_def)
qed

lemma OpenDB_truncated: "OpenDB ''mydb.data'' truncatedFS = (Inr exampleDB, truncatedFS)"
proof -
  have "exampleLine \<noteq> []"
    by (simp add: exampleLine_def)
  then have "loadIndex_loop exampleLine 0 Map.empty = (None, [''a'' \<mapsto> 0])"
    using Scan_last_line [of exampleLine]
    by (subst loadIndex_loop_line [where line = exampleLine and rest = "[]"
            and entry = "\<lparr>Key = ''a'', Value = ''1''\<rparr>"])
       (simp_all add: example_lines MaxScanTokenSize_def Unmarshal_example loadIndex_loop_Nil)
  then show ?thesis
    by (subst OpenDB_loadIndex) (simp_all add: truncatedFS_def exampleDB_def)
qed

lemma Get_example: "Get ''a'' exampleDB exampleFS = Inr ''1''"
  by (simp add: takeWhile_line [OF example_lines(1), of "[]"] Get_def exampleDB_def exampleFS_def Seek_Set_def ReadString_def contents_def
        Let_def Unmarshal_example example_lines)

lemma Get_truncated: "Get ''a'' exampleDB truncatedFS = Inl StorageError"
  by (simp add: takeWhile_last_line [OF example_lines(1)] Get_def exampleDB_def truncatedFS_def Seek_Set_def ReadString_def contents_def
        Let_def example_lines)

section \<open>Delete\<close>

lemma Delete_present:
  "data db k = Some off \<Longrightarrow> Delete k db = (None, db\<lparr>data := (data db)(k := None)\<rparr>)"
  by (simp add: Delete_def)

lemma Delete_absent: "data db k = None \<Longrightarrow> Delete k db = (Some KeyNotFound, db)"
  by (simp add: Delete_def)

text \<open>
  C7.  For a key in the index, Delete succeeds and removes the entry of that key only: the
  entry of every other key, the file handle and the path are as before, and the file system,
  hence the bytes of the log, is the same after the call.
\<close>

theorem Delete_removes_only_the_entry:
  assumes "data db k = Some off"
  shows "fst (Delete k db) = None
         \<and> data (snd (Delete k db)) k = None
         \<and> (\<forall>k'. k' \<noteq> k \<longrightarrow> data (snd (Delete k db)) k' = data db k')
         \<and> file (snd (Delete k db)) = file db
         \<and> path (snd (Delete k db)) = path db
         \<and> snd (step (CallDelete k) (db, fs)) = fs
         \<and> contents (file (snd (Delete k db))) (snd (step (CallDelete k) (db, fs)))
             = contents (file db) fs"
  using assms by (simp add: Delete_present)

theorem Delete_removes_only_the_entry_witness:
  "data exampleDB ''a'' = Some 0
   \<and> fst (Delete ''a'' exampleDB) = None
   \<and> data (snd (Delete ''a'' exampleDB)) ''a'' = None
   \<and> data (snd (Delete ''a'' exampleDB)) ''b'' = data exampleDB ''b''
   \<and> snd (step (CallDelete ''a'') (exampleDB, exampleFS)) = exampleFS"
proof -
  have h: "data exampleDB ''a'' = Some 0"
    by (simp add: exampleDB_def)
  show ?thesis
    using h Delete_removes_only_the_entry [OF h, of exampleFS] by simp
qed

text \<open>
  C10.  What Delete returns and the index it leaves depend on the index alone: two stores with
  the same index, whatever their file handles, get the same answer.  In particular, for a
  key in the index, Delete after Close still succeeds and removes the entry.
\<close>

theorem Delete_depends_on_the_index_only:
  "(data db' = data db \<longrightarrow>
      fst (Delete k db') = fst (Delete k db)
      \<and> data (snd (Delete k db')) = data (snd (Delete k db)))
   \<and> (data db k \<noteq> None \<longrightarrow>
      closed (file (snd (Close db)))
      \<and> fst (Delete k (snd (Close db))) = None
      \<and> data (snd (Delete k (snd (Close db)))) = (data db)(k := None))"
  by (auto simp: Delete_def Close_def File_Close_def split: option.splits)

theorem Delete_depends_on_the_index_only_witness:
  "data (snd (Close exampleDB)) = data exampleDB
   \<and> fst (Delete ''a'' (snd (Close exampleDB))) = fst (Delete ''a'' exampleDB)
   \<and> data exampleDB ''a'' \<noteq> None
   \<and> closed (file (snd (Close exampleDB)))
   \<and> fst (Delete ''a'' (snd (Close exampleDB))) = None
   \<and> data (snd (Delete ''a'' (snd (Close exampleDB)))) ''a'' = None"
proof -
  have h1: "data (snd (Close exampleDB)) = data exampleDB"
    by (simp add: Close_def File_Close_def exampleDB_def)
  have h2: "data exampleDB ''a'' \<noteq> None"
    by (simp add: exampleDB_def)
  show ?thesis
    using h1 h2 Delete_depends_on_the_index_only [of "snd (Close exampleDB)" exampleDB "''a''"]
    by (metis fun_upd_same)
qed

section \<open>Get after Delete\<close>

lemma step_keeps_absent:
  "data db k = None \<Longrightarrow> \<not> Set_succeeds k c (db, fs) \<Longrightarrow> data (fst (step c (db, fs))) k = None"
  by (cases c)
     (auto simp: Set_def Let_def Delete_def Close_def split: sum.splits option.splits prod.splits)

lemma run_keeps_absent:
  "data (fst st) k = None \<Longrightarrow> no_Set_of k cs st \<Longrightarrow> data (fst (run cs st)) k = None"
proof (induction cs arbitrary: st)
  case Nil
  then show ?case by simp
next
  case (Cons c cs)
  obtain db fs where st: "st = (db, fs)" by (cases st)
  from Cons.prems have "data (fst (step c st)) k = None"
    unfolding st by (auto intro: step_keeps_absent)
  with Cons show ?case by simp
qed

text \<open>
  C2.  After a Delete of \<open>k\<close> that succeeds (so \<open>k\<close> was in the index), and after any further
  calls of Set, Get, Delete and Close among which no Set of \<open>k\<close> succeeds, Get of \<open>k\<close> fails
  with KeyNotFound.
\<close>

theorem Get_after_Delete_KeyNotFound:
  assumes "fst (Delete k db) = None"
    and "no_Set_of k cs (snd (Delete k db), fs)"
  shows "data db k \<noteq> None
         \<and> Get k (fst (run cs (snd (Delete k db), fs))) (snd (run cs (snd (Delete k db), fs)))
             = Inl KeyNotFound"
proof -
  have present: "data db k \<noteq> None"
    using assms(1) by (auto simp: Delete_def split: option.splits)
  then have "data (snd (Delete k db)) k = None"
    by (auto simp: Delete_def split: option.splits)
  then have "data (fst (run cs (snd (Delete k db), fs))) k = None"
    using assms(2) by (intro run_keeps_absent) simp_all
  with present show ?thesis by (simp add: Get_def)
qed

theorem Get_after_Delete_KeyNotFound_witness:
  "fst (Delete ''a'' exampleDB) = None
   \<and> no_Set_of ''a'' exampleCalls (snd (Delete ''a'' exampleDB), exampleFS)
   \<and> Get ''a'' (fst (run exampleCalls (snd (Delete ''a'' exampleDB), exampleFS)))
        (snd (run exampleCalls (snd (Delete ''a'' exampleDB), exampleFS)))
       = Inl KeyNotFound"
proof -
  have h1: "fst (Delete ''a'' exampleDB) = None"
    by (simp add: Delete_def exampleDB_def)
  have h2: "no_Set_of ''a'' exampleCalls (snd (Delete ''a'' exampleDB), exampleFS)"
    by (simp add: exampleCalls_def exampleDB_def exampleFS_def emptyFS_def Delete_def Set_def
          Close_def File_Close_def Marshal_def Seek_End_def Write_def contents_def)
  show ?thesis
    using h1 h2 Get_after_Delete_KeyNotFound [OF h1 h2] by simp
qed

section \<open>Reopening after a Delete\<close>

text \<open>
  C4.  From a file system with no file: open, Set of \<open>a\<close> to \<open>1\<close>, Delete of \<open>a\<close>, Close (each
  succeeds, and Get of \<open>a\<close> before the Close fails with KeyNotFound); then open the same path
  again: Get of \<open>a\<close> returns \<open>1\<close>.
\<close>

theorem Delete_does_not_survive_reopen:
  "(case OpenDB ''mydb.data'' emptyFS of
      (Inl err, fs0) \<Rightarrow> False
    | (Inr db0, fs0) \<Rightarrow>
        (case Set ''a'' ''1'' db0 fs0 of
           (err1, db1, fs1) \<Rightarrow>
             (case Delete ''a'' db1 of
                (err2, db2) \<Rightarrow>
                  (case Close db2 of
                     (err3, db3) \<Rightarrow>
                       err1 = None \<and> err2 = None \<and> err3 = None
                       \<and> Get ''a'' db2 fs1 = Inl KeyNotFound
                       \<and> (case OpenDB ''mydb.data'' fs1 of
                            (Inl err, fs4) \<Rightarrow> False
                          | (Inr db4, fs4) \<Rightarrow> Get ''a'' db4 fs4 = Inr ''1'')))))"
  by (simp add: OpenDB_new Set_new OpenDB_example Get_example)
     (simp add: Delete_def Close_def File_Close_def Get_def exampleDB_def)

section \<open>A record that does not decode\<close>

lemma Unmarshal_error: "Unmarshal line = Inl err \<Longrightarrow> err = EncodingError"
proof -
  have obj: "object ms entry = Inl err \<Longrightarrow> err = EncodingError" for ms entry
    by (induction ms entry rule: object.induct) (auto split: option.splits json.splits)
  assume "Unmarshal line = Inl err"
  then show ?thesis
    by (auto simp: Unmarshal_def split: option.splits prod.splits if_splits json.splits
          dest: obj)
qed

lemma scanned_lines_Some:
  "Scan buf = Inr (Some (l, rest)) \<Longrightarrow> scanned_lines buf = l # scanned_lines rest"
  by (subst scanned_lines.simps) simp

lemma scanned_lines_None: "Scan buf = Inr None \<Longrightarrow> scanned_lines buf = []"
  by (subst scanned_lines.simps) simp

lemma scanned_lines_Inl: "Scan buf = Inl err \<Longrightarrow> scanned_lines buf = []"
  by (subst scanned_lines.simps) simp

lemma loadIndex_loop_bad_line:
  "line \<in> set (scanned_lines buf) \<Longrightarrow> Unmarshal line = Inl err
     \<Longrightarrow> fst (loadIndex_loop buf offset idx) = Some EncodingError"
proof (induction buf offset idx rule: loadIndex_loop.induct)
  case (1 buf offset idx)
  from "1.prems"(1) have "scanned_lines buf \<noteq> []" by auto
  then obtain l rest where scan: "Scan buf = Inr (Some (l, rest))"
    by (subst (asm) scanned_lines.simps) (auto split: sum.splits option.splits)
  with "1.prems"(1) have mem: "line = l \<or> line \<in> set (scanned_lines rest)"
    by (auto simp: scanned_lines_Some)
  show ?case
  proof (cases "Unmarshal l")
    case (Inl e)
    then show ?thesis
      using scan by (subst loadIndex_loop.simps) (auto dest: Unmarshal_error)
  next
    case (Inr entry)
    with mem "1.prems"(2) have rest: "line \<in> set (scanned_lines rest)" by auto
    have "fst (loadIndex_loop rest (offset + (length l + 1)) (idx(Key entry \<mapsto> offset)))
            = Some EncodingError"
      by (rule "1.IH" [OF scan refl refl Inr rest "1.prems"(2)])
    then show ?thesis
      using scan Inr by (subst loadIndex_loop.simps) simp
  qed
qed

text \<open>
  C5.  When one of the lines that the scan of the file at the path reaches does not decode,
  OpenDB returns the decode error, EncodingError, and no store; the file system is as before.
  (A line the scanner gives up on for its length ends the scan; the lines after it are not
  reached.)
\<close>

theorem OpenDB_fails_on_a_bad_record:
  assumes "line \<in> set (scanned_lines (bytes_at p fs))"
    and "Unmarshal line = Inl err"
  shows "OpenDB p fs = (Inl EncodingError, fs)"
proof -
  have "scanned_lines [] = []"
    by (rule scanned_lines_None) (rule Scan_Nil)
  with assms(1) have "bytes_at p fs \<noteq> []"
    by auto
  then have regular: "fs p = Regular (bytes_at p fs)"
    by (auto simp: bytes_at_def split: entry.splits)
  have "fst (loadIndex_loop (bytes_at p fs) 0 Map.empty) = Some EncodingError"
    using assms by (rule loadIndex_loop_bad_line)
  then show ?thesis
    using regular
    by (auto simp: OpenDB_def OpenFile_def loadIndex_def contents_def Let_def
          split: prod.splits option.splits)
qed

theorem OpenDB_fails_on_a_bad_record_witness:
  "corruptedLine \<in> set (scanned_lines (bytes_at ''mydb.data'' corruptedFS))
   \<and> Unmarshal corruptedLine = Inl EncodingError
   \<and> OpenDB ''mydb.data'' corruptedFS = (Inl EncodingError, corruptedFS)"
proof -
  let ?b = "exampleLine @ LF # corruptedLine @ LF # exampleLine2 @ [LF]"
  have b: "bytes_at ''mydb.data'' corruptedFS = ?b"
    by (simp add: bytes_at_def corruptedFS_def)
  have "scanned_lines ?b = exampleLine # scanned_lines (corruptedLine @ LF # exampleLine2 @ [LF])"
    by (rule scanned_lines_Some)
       (simp add: Scan_line [of exampleLine, simplified example_lines] MaxScanTokenSize_def)
  moreover have "scanned_lines (corruptedLine @ LF # exampleLine2 @ [LF])
                   = corruptedLine # scanned_lines (exampleLine2 @ [LF])"
    by (rule scanned_lines_Some)
       (simp add: Scan_line [of corruptedLine, simplified example_lines] MaxScanTokenSize_def)
  ultimately have h2: "corruptedLine \<in> set (scanned_lines (bytes_at ''mydb.data'' corruptedFS))"
    by (simp add: b)
  have h3: "Unmarshal corruptedLine = Inl EncodingError"
    by (rule Unmarshal_example)
  show ?thesis
    using h2 h3 OpenDB_fails_on_a_bad_record [OF h2 h3] by simp
qed

section \<open>The handlers and the errors of the store\<close>

text \<open>
  \<^verbatim>\<open>handleSet\<close> tells a failure of the store from a bad request: an error of Set, whatever
  it is, gets the response 500 with the text of the error.
\<close>

lemma handleSet_store_error:
  assumes "fst (Set (Key body) (Value body) db fs) = Some err"
  shows "fst (handleSet message (Inr body) db fs)
           = JSON StatusInternalServerError [(''error'', message err)]"
  using assms by (auto simp: handleSet_def split: prod.splits option.splits)

lemma handleSet_closed_store:
  "fst (Set ''a'' ''1'' (snd (Close exampleDB)) exampleFS) = Some StorageError
   \<and> status_of (fst (handleSet message (Inr \<lparr>Key = ''a'', Value = ''1''\<rparr>)
                        (snd (Close exampleDB)) exampleFS)) = StatusInternalServerError"
proof -
  have "fst (Set ''a'' ''1'' (snd (Close exampleDB)) exampleFS) = Some StorageError"
    by (simp add: Set_def Marshal_example Seek_End_def Close_def File_Close_def exampleDB_def)
  then show ?thesis
    using handleSet_store_error [of "\<lparr>Key = ''a'', Value = ''1''\<rparr>" "snd (Close exampleDB)"
        exampleFS StorageError message]
    by (simp add: status_of_def)
qed

text \<open>
  What \<^verbatim>\<open>handleGet\<close> and \<^verbatim>\<open>handleDelete\<close> do with an error: they test \<^verbatim>\<open>err != nil\<close> only, and
  the response is 404 \<open>Key not found\<close> for every error of Get, of whatever kind.  Delete has
  one error, KeyNotFound, so for the deletion handler this is the response to a missing key.
\<close>

lemma handlers_answer_every_error_with_not_found:
  assumes "Get key db fs = Inl err"
    and "fst (Delete key' db') = Some err'"
  shows "handleGet key db fs = JSON StatusNotFound [(''error'', ''Key not found'')]
         \<and> err' = KeyNotFound
         \<and> fst (handleDelete key' db') = JSON StatusNotFound [(''error'', ''Key not found'')]
         \<and> snd (handleDelete key' db') = db'"
  using assms
  by (auto simp: handleGet_def handleDelete_def Delete_def split: option.splits)

text \<open>
  C6.  The lookup handler at a failure of the store.  The file \<^verbatim>\<open>mydb.data\<close> holds one
  record, of the key \<open>a\<close>, without its line feed.  OpenDB succeeds and has \<open>a\<close> in the index at
  offset 0; Get of \<open>a\<close> fails with a storage error (the file ends before a line feed), which
  is not KeyNotFound; and \<^verbatim>\<open>handleGet\<close> answers 404 \<open>Key not found\<close>, not the server error 500
  that the claim states, and that \<^verbatim>\<open>handleSet\<close> gives for a failure of the store.
\<close>

theorem handleGet_storage_error_is_not_found:
  "OpenDB ''mydb.data'' truncatedFS = (Inr exampleDB, truncatedFS)
   \<and> data exampleDB ''a'' = Some 0
   \<and> Get ''a'' exampleDB truncatedFS = Inl StorageError
   \<and> StorageError \<noteq> KeyNotFound
   \<and> handleGet ''a'' exampleDB truncatedFS = JSON StatusNotFound [(''error'', ''Key not found'')]
   \<and> status_of (handleGet ''a'' exampleDB truncatedFS) = StatusNotFound
   \<and> StatusNotFound \<noteq> StatusInternalServerError"
proof -
  have "data exampleDB ''a'' = Some 0"
    by (simp add: exampleDB_def)
  then show ?thesis
    by (simp add: OpenDB_truncated Get_truncated handleGet_def status_of_def StatusNotFound_def
          StatusInternalServerError_def)
qed

section \<open>UTF-8: a rune decoded and encoded again\<close>

lemma mod_offset:
  fixes a :: nat
  shows "192 \<le> a \<Longrightarrow> a < 224 \<Longrightarrow> a mod 32 = a - 192"
    and "224 \<le> a \<Longrightarrow> a < 240 \<Longrightarrow> a mod 16 = a - 224"
    and "240 \<le> a \<Longrightarrow> a < 248 \<Longrightarrow> a mod 8 = a - 240"
    and "128 \<le> a \<Longrightarrow> a < 192 \<Longrightarrow> a mod 64 = a - 128"
proof -
  have m: "(k * q + j) mod k = j" if "j < k" for k q j :: nat
    using that by simp
  show "192 \<le> a \<Longrightarrow> a < 224 \<Longrightarrow> a mod 32 = a - 192"
    using m [of "a - 192" 32 6] by simp
  show "224 \<le> a \<Longrightarrow> a < 240 \<Longrightarrow> a mod 16 = a - 224"
    using m [of "a - 224" 16 14] by simp
  show "240 \<le> a \<Longrightarrow> a < 248 \<Longrightarrow> a mod 8 = a - 240"
    using m [of "a - 240" 8 30] by simp
  show "128 \<le> a \<Longrightarrow> a < 192 \<Longrightarrow> a mod 64 = a - 128"
    using m [of "a - 128" 64 2] by simp
qed

lemma DecodeRune_ascii: "byte c < 0x80 \<Longrightarrow> DecodeRune (c # cs) = (byte c, 1)"
  by (simp add: DecodeRune_def)

lemma DecodeRune_bad_lead:
  "0x80 \<le> byte c \<Longrightarrow> byte c < 0xC2 \<or> 0xF4 < byte c \<Longrightarrow> DecodeRune (c # cs) = (RuneError, 1)"
  by (auto simp: DecodeRune_def)

lemma DecodeRune_2:
  assumes "0xC2 \<le> byte c" "byte c < 0xE0"
  shows "DecodeRune (c # cs) =
           (case cs of
              [] \<Rightarrow> (RuneError, 1)
            | c1 # _ \<Rightarrow>
                if 0x80 \<le> byte c1 \<and> byte c1 \<le> 0xBF
                then ((byte c - 192) * 64 + (byte c1 - 128), 2) else (RuneError, 1))"
  using assms by (auto simp: DecodeRune_def Let_def mod_offset split: list.splits)

lemma DecodeRune_3:
  assumes "0xE0 \<le> byte c" "byte c < 0xF0"
  shows "DecodeRune (c # cs) =
           (case cs of
              c1 # c2 # _ \<Rightarrow>
                if (if byte c = 0xE0 then 0xA0 else 0x80) \<le> byte c1
                   \<and> byte c1 \<le> (if byte c = 0xED then 0x9F else 0xBF)
                   \<and> 0x80 \<le> byte c2 \<and> byte c2 \<le> 0xBF
                then ((byte c - 224) * 4096 + (byte c1 - 128) * 64 + (byte c2 - 128), 3)
                else (RuneError, 1)
            | _ \<Rightarrow> (RuneError, 1))"
  using assms by (auto simp: DecodeRune_def Let_def mod_offset split: list.splits)

lemma DecodeRune_4:
  assumes "0xF0 \<le> byte c" "byte c \<le> 0xF4"
  shows "DecodeRune (c # cs) =
           (case cs of
              c1 # c2 # c3 # _ \<Rightarrow>
                if (if byte c = 0xF0 then 0x90 else 0x80) \<le> byte c1
                   \<and> byte c1 \<le> (if byte c = 0xF4 then 0x8F else 0xBF)
                   \<and> 0x80 \<le> byte c2 \<and> byte c2 \<le> 0xBF
                   \<and> 0x80 \<le> byte c3 \<and> byte c3 \<le> 0xBF
                then ((byte c - 240) * 262144 + (byte c1 - 128) * 4096 + (byte c2 - 128) * 64
                        + (byte c3 - 128), 4)
                else (RuneError, 1)
            | _ \<Rightarrow> (RuneError, 1))"
  using assms by (auto simp: DecodeRune_def Let_def mod_offset split: list.splits)


lemma mod64: "j < 64 \<Longrightarrow> (q * 64 + j) mod 64 = (j::nat)"
  by simp

lemma EncodeRune_2:
  assumes "2 \<le> a" "a < 32" "b < 64"
  shows "EncodeRune (a * 64 + b) = [chr (192 + a), chr (128 + b)]"
proof -
  have "\<not> a * 64 + b \<le> 127" "a * 64 + b \<le> 2047" using assms by linarith+
  moreover have "(a * 64 + b) div 64 = a" "(a * 64 + b) mod 64 = b" using assms by simp_all
  ultimately show ?thesis by (simp add: EncodeRune_def)
qed

lemma EncodeRune_3:
  assumes "a < 16" "b < 64" "c < 64" "a = 0 \<longrightarrow> 32 \<le> b" "a = 13 \<longrightarrow> b < 32"
  shows "EncodeRune (a * 4096 + b * 64 + c) = [chr (224 + a), chr (128 + b), chr (128 + c)]"
proof -
  let ?r = "a * 4096 + b * 64 + c"
  have lo: "\<not> ?r \<le> 2047" using assms by (cases "a = 0") auto
  have hi: "?r \<le> 65535" using assms by linarith
  have sur: "\<not> (55296 \<le> ?r \<and> ?r \<le> 57343)"
  proof (cases "a = 13")
    case True
    with assms show ?thesis by auto
  next
    case False
    then have "a \<le> 12 \<or> 14 \<le> a" by linarith
    with assms show ?thesis by auto
  qed
  have d1: "?r div 4096 = a" using assms by simp
  have "?r div 64 = a * 64 + b" using assms by simp
  then have d2: "(?r div 64) mod 64 = b" using assms by simp
  have e: "?r = (a * 64 + b) * 64 + c" by simp
  have d3: "?r mod 64 = c" by (subst e) (rule mod64 [OF assms(3)])
  have "\<not> ?r \<le> 127" using lo by linarith
  then show ?thesis using lo hi sur d1 d2 d3 unfolding EncodeRune_def by auto
qed

lemma EncodeRune_4:
  assumes "a < 5" "b < 64" "c < 64" "d < 64" "a = 0 \<longrightarrow> 16 \<le> b" "a = 4 \<longrightarrow> b < 16"
  shows "EncodeRune (a * 262144 + b * 4096 + c * 64 + d)
           = [chr (240 + a), chr (128 + b), chr (128 + c), chr (128 + d)]"
proof -
  let ?r = "a * 262144 + b * 4096 + c * 64 + d"
  have lo: "\<not> ?r \<le> 65535" using assms by (cases "a = 0") auto
  have hi: "?r \<le> 1114111" using assms by (cases "a = 4") auto
  have d1: "?r div 262144 = a" using assms by simp
  have "?r div 4096 = a * 64 + b" using assms by simp
  then have d2: "(?r div 4096) mod 64 = b" using assms by simp
  have e1: "?r div 64 = (a * 64 + b) * 64 + c" using assms by simp
  have d3: "(?r div 64) mod 64 = c" by (subst e1) (rule mod64 [OF assms(3)])
  have e2: "?r = ((a * 64 + b) * 64 + c) * 64 + d" by simp
  have d4: "?r mod 64 = d" by (subst e2) (rule mod64 [OF assms(4)])
  have "\<not> ?r \<le> 127" "\<not> ?r \<le> 2047" "\<not> (55296 \<le> ?r \<and> ?r \<le> 57343)" using lo by linarith+
  then show ?thesis using lo hi d1 d2 d3 d4 unfolding EncodeRune_def by auto
qed

lemma DecodeRune_multibyte:
  assumes lead: "0x80 \<le> byte c" and dec: "DecodeRune (c # cs) = (r, n)" and valid: "n \<noteq> 1"
  shows "1 < n \<and> n \<le> Suc (length cs) \<and> EncodeRune r = take n (c # cs)
         \<and> DecodeRune (take n (c # cs) @ t) = (r, n)
         \<and> (\<forall>x\<in>set (take n (c # cs)). 0x80 \<le> byte x)"
proof -
  consider (bad) "byte c < 0xC2 \<or> 0xF4 < byte c"
    | (two) "0xC2 \<le> byte c" "byte c < 0xE0"
    | (three) "0xE0 \<le> byte c" "byte c < 0xF0"
    | (four) "0xF0 \<le> byte c" "byte c \<le> 0xF4"
    by linarith
  then show ?thesis
  proof cases
    case bad
    with lead dec valid show ?thesis by (simp add: DecodeRune_bad_lead)
  next
    case two
    from dec valid obtain c1 cs' where cs: "cs = c1 # cs'"
      and c1: "0x80 \<le> byte c1" "byte c1 \<le> 0xBF"
      and r: "r = (byte c - 192) * 64 + (byte c1 - 128)" and n: "n = 2"
      by (auto simp: DecodeRune_2 [OF two] split: list.splits if_splits)
    have "EncodeRune r = [chr (192 + (byte c - 192)), chr (128 + (byte c1 - 128))]"
      unfolding r using two c1 by (intro EncodeRune_2) auto
    then have enc: "EncodeRune r = [c, c1]" using two c1 by simp
    show ?thesis
      using enc two c1 lead by (simp add: cs n r DecodeRune_2 [OF two])
  next
    case three
    from dec valid obtain c1 c2 cs' where cs: "cs = c1 # c2 # cs'"
      and c1: "(if byte c = 0xE0 then 0xA0 else 0x80) \<le> byte c1"
              "byte c1 \<le> (if byte c = 0xED then 0x9F else 0xBF)"
      and c2: "0x80 \<le> byte c2" "byte c2 \<le> 0xBF"
      and r: "r = (byte c - 224) * 4096 + (byte c1 - 128) * 64 + (byte c2 - 128)" and n: "n = 3"
      by (auto simp: DecodeRune_3 [OF three] split: list.splits if_splits)
    have c1': "0x80 \<le> byte c1" "byte c1 \<le> 0xBF"
      using c1 by (auto split: if_splits)
    have "EncodeRune r = [chr (224 + (byte c - 224)), chr (128 + (byte c1 - 128)),
                          chr (128 + (byte c2 - 128))]"
      unfolding r using three c1 c1' c2 by (intro EncodeRune_3) (auto split: if_splits)
    then have enc: "EncodeRune r = [c, c1, c2]" using three c1' c2 by simp
    show ?thesis
      using enc three c1 c1' c2 lead by (simp add: cs n r DecodeRune_3 [OF three])
  next
    case four
    from dec valid obtain c1 c2 c3 cs' where cs: "cs = c1 # c2 # c3 # cs'"
      and c1: "(if byte c = 0xF0 then 0x90 else 0x80) \<le> byte c1"
              "byte c1 \<le> (if byte c = 0xF4 then 0x8F else 0xBF)"
      and c2: "0x80 \<le> byte c2" "byte c2 \<le> 0xBF"
      and c3: "0x80 \<le> byte c3" "byte c3 \<le> 0xBF"
      and r: "r = (byte c - 240) * 262144 + (byte c1 - 128) * 4096 + (byte c2 - 128) * 64
                    + (byte c3 - 128)" and n: "n = 4"
      by (auto simp: DecodeRune_4 [OF four] split: list.splits if_splits)
    have c1': "0x80 \<le> byte c1" "byte c1 \<le> 0xBF"
      using c1 by (auto split: if_splits)
    have "EncodeRune r = [chr (240 + (byte c - 240)), chr (128 + (byte c1 - 128)),
                          chr (128 + (byte c2 - 128)), chr (128 + (byte c3 - 128))]"
      unfolding r using four c1 c1' c2 c3 by (intro EncodeRune_4) (auto split: if_splits)
    then have enc: "EncodeRune r = [c, c1, c2, c3]" using four c1' c2 c3 by simp
    show ?thesis
      using enc four c1 c1' c2 c3 lead by (simp add: cs n r DecodeRune_4 [OF four])
  qed
qed

section \<open>JSON strings: what the encoder writes, the decoder reads\<close>

lemma hexval_hex: "n < 16 \<Longrightarrow> hexval (hex n) = Some n"
proof -
  have "\<forall>n\<in>set [0..<16]. hexval (hex n) = Some n"
    by code_simp
  then show "n < 16 \<Longrightarrow> hexval (hex n) = Some n" by simp
qed

lemma hex_printable: "n < 16 \<Longrightarrow> 0x20 \<le> byte (hex n) \<and> byte (hex n) < 0x80"
proof -
  have "\<forall>n\<in>set [0..<16]. 0x20 \<le> byte (hex n) \<and> byte (hex n) < 0x80"
    by code_simp
  then show "n < 16 \<Longrightarrow> 0x20 \<le> byte (hex n) \<and> byte (hex n) < 0x80" by simp
qed

lemma getu4_escape:
  assumes "a < 16" "b < 16" "c < 16" "d < 16"
  shows "getu4 (BSL # CHR ''u'' # hex a # hex b # hex c # hex d # rest)
           = Some (((a * 16 + b) * 16 + c) * 16 + d)"
  using assms by (simp add: getu4_def hexval_hex)

lemma hex_literal:
  "CHR ''0'' = hex 0" "CHR ''2'' = hex 2" "CHR ''8'' = hex 8" "CHR ''9'' = hex 9"
  "CHR ''f'' = hex 15" "CHR ''d'' = hex 13"
  by (simp_all add: hex_def)

lemma unquote_loop_quote: "unquote_loop (DQ # rest) = Some ([], rest)"
  by (subst unquote_loop.simps) simp

lemma unquote_loop_plain:
  "c \<noteq> DQ \<Longrightarrow> c \<noteq> BSL \<Longrightarrow> 0x20 \<le> byte c \<Longrightarrow> byte c < 0x80
     \<Longrightarrow> unquote_loop (c # rest) = prepend [c] (unquote_loop rest)"
  by (subst unquote_loop.simps) simp

lemma unquote_loop_escape:
  "unquote_loop (BSL # DQ # rest) = prepend [DQ] (unquote_loop rest)"
  "unquote_loop (BSL # BSL # rest) = prepend [BSL] (unquote_loop rest)"
  "unquote_loop (BSL # CHR ''b'' # rest) = prepend [CHR 0x08] (unquote_loop rest)"
  "unquote_loop (BSL # CHR ''f'' # rest) = prepend [CHR 0x0C] (unquote_loop rest)"
  "unquote_loop (BSL # CHR ''n'' # rest) = prepend [LF] (unquote_loop rest)"
  "unquote_loop (BSL # CHR ''r'' # rest) = prepend [CR] (unquote_loop rest)"
  "unquote_loop (BSL # CHR ''t'' # rest) = prepend [CHR 0x09] (unquote_loop rest)"
  by (subst unquote_loop.simps, simp)+

lemma unquote_loop_u:
  assumes "getu4 (BSL # CHR ''u'' # h1 # h2 # h3 # h4 # rest) = Some rr"
    and "rr < 0xD800 \<or> 0xE000 \<le> rr"
  shows "unquote_loop (BSL # CHR ''u'' # h1 # h2 # h3 # h4 # rest)
           = prepend (EncodeRune rr) (unquote_loop rest)"
  using assms by (subst unquote_loop.simps) auto

lemma unquote_loop_multibyte:
  "0x80 \<le> byte c
     \<Longrightarrow> unquote_loop (c # rest)
           = (let (rr, size) = DecodeRune (c # rest)
              in prepend (EncodeRune rr) (unquote_loop (drop size (c # rest))))"
  by (subst unquote_loop.simps) (auto simp: Let_def)

lemma prepend_Some [simp]: "prepend x (Some (v, rest)) = Some (x @ v, rest)"
  by (simp add: prepend_def)

lemma escape_u00:
  assumes "byte c < 0x80"
  shows "unquote_loop (BSL # CHR ''u'' # CHR ''0'' # CHR ''0'' # hex (byte c div 16)
                         # hex (byte c mod 16) # X)
           = prepend [c] (unquote_loop X)"
proof -
  have d: "byte c div 16 < 16" using assms by simp
  have "getu4 (BSL # CHR ''u'' # hex 0 # hex 0 # hex (byte c div 16) # hex (byte c mod 16) # X)
          = Some (((0 * 16 + 0) * 16 + byte c div 16) * 16 + byte c mod 16)"
    using d by (intro getu4_escape) simp_all
  then have g: "getu4 (BSL # CHR ''u'' # CHR ''0'' # CHR ''0'' # hex (byte c div 16)
                         # hex (byte c mod 16) # X) = Some (byte c)"
    by (simp add: hex_literal [symmetric])
  have "EncodeRune (byte c) = [c]"
    using assms by (simp add: EncodeRune_def)
  then show ?thesis
    using unquote_loop_u [OF g] assms by simp
qed

lemma unquote_loop_ascii:
  assumes "byte c < 0x80"
  shows "unquote_loop ((if htmlSafeSet c then [c] else escapeByte c) @ X)
           = prepend [c] (unquote_loop X)"
proof (cases "htmlSafeSet c")
  case True
  then show ?thesis
    by (simp add: htmlSafeSet_def unquote_loop_plain)
next
  case False
  then show ?thesis
    using escape_u00 [OF assms, of X]
    by (simp add: escapeByte_def unquote_loop_escape)
qed

lemma coerceUTF8_Nil [simp]: "coerceUTF8 [] = []"
  by (subst coerceUTF8.simps) simp

lemma appendString_loop_Nil [simp]: "appendString_loop [] = []"
  by (subst appendString_loop.simps) simp

lemma coerceUTF8_ascii: "byte c < 0x80 \<Longrightarrow> coerceUTF8 (c # cs) = c # coerceUTF8 cs"
  by (subst coerceUTF8.simps) (simp add: DecodeRune_ascii RuneError_def)

lemma appendString_loop_ascii:
  "byte c < 0x80 \<Longrightarrow> appendString_loop (c # cs)
     = (if htmlSafeSet c then [c] else escapeByte c) @ appendString_loop cs"
  by (subst appendString_loop.simps) simp

lemma DecodeRune_invalid:
  "0x80 \<le> byte c \<Longrightarrow> DecodeRune (c # cs) = (r, 1) \<Longrightarrow> r = RuneError"
  by (auto simp: DecodeRune_def Let_def split: if_splits)

lemma chr_eq: "(chr n = c) = (n mod 256 = byte c)"
  by (simp add: char_of_eq_iff take_bit_eq_mod)

text \<open>
  Reading back what \<open>appendString_loop\<close> has written, up to the closing quote, gives the
  string coerced to UTF-8.
\<close>

lemma unquote_appendString_loop:
  "unquote_loop (appendString_loop s @ DQ # rest) = Some (coerceUTF8 s, rest)"
proof (induction s rule: length_induct)
  case (1 s)
  show ?case
  proof (cases s)
    case Nil
    then show ?thesis by (simp add: unquote_loop_quote)
  next
    case (Cons c cs)
    show ?thesis
    proof (cases "byte c < 0x80")
      case True
      have "unquote_loop (appendString_loop cs @ DQ # rest) = Some (coerceUTF8 cs, rest)"
        using 1 Cons by simp
      then show ?thesis
        using True by (simp add: Cons appendString_loop_ascii coerceUTF8_ascii
            unquote_loop_ascii [OF True] del: append_Cons)
    next
      case False
      then have lead: "0x80 \<le> byte c" by simp
      obtain r n where dec: "DecodeRune (c # cs) = (r, n)" by (cases "DecodeRune (c # cs)")
      have npos: "0 < n" using DecodeRune_pos [of r n c cs] dec by simp
      let ?tail = "drop n (c # cs)"
      have IH: "unquote_loop (appendString_loop ?tail @ DQ # rest) = Some (coerceUTF8 ?tail, rest)"
        using 1 Cons npos by simp
      show ?thesis
      proof (cases "n = 1")
        case True
        with dec lead have r: "r = RuneError" by (auto dest: DecodeRune_invalid)
        have a: "appendString_loop (c # cs)
                   = [BSL, CHR ''u'', CHR ''f'', CHR ''f'', CHR ''f'', CHR ''d'']
                       @ appendString_loop ?tail"
          using False dec r True by (subst appendString_loop.simps) simp
        have c: "coerceUTF8 (c # cs) = [CHR 0xEF, CHR 0xBF, CHR 0xBD] @ coerceUTF8 ?tail"
          using dec r True by (subst coerceUTF8.simps) simp
        have "getu4 (BSL # CHR ''u'' # hex 15 # hex 15 # hex 15 # hex 13
                       # (appendString_loop ?tail @ DQ # rest))
                = Some (((15 * 16 + 15) * 16 + 15) * 16 + 13)"
          by (intro getu4_escape) simp_all
        then have g: "getu4 (BSL # CHR ''u'' # CHR ''f'' # CHR ''f'' # CHR ''f'' # CHR ''d''
                       # (appendString_loop ?tail @ DQ # rest)) = Some 0xFFFD"
          by (simp add: hex_literal [symmetric])
        have e: "EncodeRune 0xFFFD = [CHR 0xEF, CHR 0xBF, CHR 0xBD]"
          by (simp add: EncodeRune_def chr_eq)
        show ?thesis
          using unquote_loop_u [OF g] IH by (simp add: Cons a c e)
      next
        case nvalid: False
        note mb = DecodeRune_multibyte [OF lead dec nvalid]
        have c: "coerceUTF8 (c # cs) = take n (c # cs) @ coerceUTF8 ?tail"
          using dec nvalid by (subst coerceUTF8.simps) simp
        have len: "length (take n (c # cs)) = n" using mb [of "[]"] by simp
        show ?thesis
        proof (cases "r = 0x2028 \<or> r = 0x2029")
          case True
          have a: "appendString_loop (c # cs)
                     = [BSL, CHR ''u'', CHR ''2'', CHR ''0'', CHR ''2'', hex (r mod 16)]
                         @ appendString_loop ?tail"
            using False dec nvalid True
            by (subst appendString_loop.simps) (auto simp: RuneError_def)
          have "getu4 (BSL # CHR ''u'' # hex 2 # hex 0 # hex 2 # hex (r mod 16)
                         # (appendString_loop ?tail @ DQ # rest))
                  = Some (((2 * 16 + 0) * 16 + 2) * 16 + r mod 16)"
            by (intro getu4_escape) simp_all
          then have g: "getu4 (BSL # CHR ''u'' # CHR ''2'' # CHR ''0'' # CHR ''2'' # hex (r mod 16)
                         # (appendString_loop ?tail @ DQ # rest)) = Some r"
            using True by (auto simp: hex_literal [symmetric])
          have "EncodeRune r = take n (c # cs)" using mb [of "[]"] by simp
          then show ?thesis
            using unquote_loop_u [OF g] IH True by (auto simp: Cons a c)
        next
          case other: False
          have a: "appendString_loop (c # cs) = take n (c # cs) @ appendString_loop ?tail"
            using False dec nvalid other
            by (subst appendString_loop.simps) (auto simp: RuneError_def)
          let ?X = "appendString_loop ?tail @ DQ # rest"
          obtain c' cs' where t: "take n (c # cs) = c # cs'"
            using npos by (cases n) auto
          have d: "DecodeRune (c # cs' @ ?X) = (r, n)"
            using mb [of ?X] t by simp
          have l': "n = length (c # cs')" using len t by simp
          have dr: "drop n (c # cs' @ ?X) = ?X"
            unfolding l' by simp
          have "unquote_loop (take n (c # cs) @ ?X) = prepend (EncodeRune r) (unquote_loop ?X)"
            unfolding t using unquote_loop_multibyte [OF lead, of "cs' @ ?X"] d dr
            by (simp del: drop_Suc_Cons)
          then show ?thesis
            using IH mb [of "[]"] by (simp add: Cons a c)
        qed
      qed
    qed
  qed
qed

lemma coerceUTF8_valid: "ValidString s \<Longrightarrow> coerceUTF8 s = s"
proof (induction s rule: ValidString.induct)
  case (1 s)
  show ?case
  proof (cases "s = []")
    case True
    then show ?thesis by simp
  next
    case False
    obtain r n where dec: "DecodeRune s = (r, n)" by (cases "DecodeRune s")
    from "1.prems" have "\<not> (r = RuneError \<and> n = 1) \<and> ValidString (drop n s)"
      using False dec by (subst (asm) ValidString.simps) (simp split: if_splits)
    then have ok: "\<not> (r = RuneError \<and> n = 1)" and rest: "ValidString (drop n s)"
      by simp_all
    have "coerceUTF8 (drop n s) = drop n s"
      using "1.IH" [OF False dec [symmetric] refl ok rest] .
    then show ?thesis
      using False dec ok by (subst coerceUTF8.simps) auto
  qed
qed

lemma escapeByte_printable: "byte c < 0x80 \<Longrightarrow> x \<in> set (escapeByte c) \<Longrightarrow> 0x20 \<le> byte x"
  using hex_printable [of "byte c div 16"] hex_printable [of "byte c mod 16"]
  by (auto simp: escapeByte_def split: if_splits)

text \<open>The encoder writes no byte below 0x20: every control character is escaped.\<close>

lemma appendString_loop_printable: "x \<in> set (appendString_loop s) \<Longrightarrow> 0x20 \<le> byte x"
proof (induction s arbitrary: x rule: length_induct)
  case (1 s)
  show ?case
  proof (cases s)
    case Nil
    with "1.prems" show ?thesis by simp
  next
    case (Cons c cs)
    show ?thesis
    proof (cases "byte c < 0x80")
      case True
      with "1.prems" Cons consider "htmlSafeSet c" "x = c" | "x \<in> set (escapeByte c)"
        | "x \<in> set (appendString_loop cs)"
        by (auto simp: appendString_loop_ascii split: if_splits)
      then show ?thesis
      proof cases
        case 1
        then show ?thesis by (simp add: htmlSafeSet_def)
      next
        case 2
        then show ?thesis using True by (rule escapeByte_printable [rotated])
      next
        case 3
        then show ?thesis using "1.IH" Cons by auto
      qed
    next
      case False
      then have lead: "0x80 \<le> byte c" by simp
      obtain r n where dec: "DecodeRune (c # cs) = (r, n)" by (cases "DecodeRune (c # cs)")
      have npos: "0 < n" using DecodeRune_pos [of r n c cs] dec by simp
      have shorter: "length (drop n (c # cs)) < length s"
        using Cons npos by simp
      have IH: "y \<in> set (appendString_loop (drop n (c # cs))) \<Longrightarrow> 0x20 \<le> byte y" for y
        using "1.IH" [rule_format, OF shorter] by simp
      have "x \<in> set (appendString_loop (drop n (c # cs)))
            \<or> x \<in> set [BSL, CHR ''u'', CHR ''f'', CHR ''f'', CHR ''f'', CHR ''d'']
            \<or> x \<in> set [BSL, CHR ''u'', CHR ''2'', CHR ''0'', CHR ''2'', hex (r mod 16)]
            \<or> (n \<noteq> 1 \<and> x \<in> set (take n (c # cs)))"
        using "1.prems" False dec DecodeRune_invalid [OF lead, of cs r] unfolding Cons
        by (subst (asm) appendString_loop.simps) (auto split: if_splits)
      then consider "x \<in> set (appendString_loop (drop n (c # cs)))"
        | "x \<in> set [BSL, CHR ''u'', CHR ''f'', CHR ''f'', CHR ''f'', CHR ''d'']"
        | "x \<in> set [BSL, CHR ''u'', CHR ''2'', CHR ''0'', CHR ''2'', hex (r mod 16)]"
        | "n \<noteq> 1" "x \<in> set (take n (c # cs))"
        by blast
      then show ?thesis
      proof cases
        case 1
        then show ?thesis by (rule IH)
      next
        case 2
        then show ?thesis by auto
      next
        case 3
        then show ?thesis using hex_printable [of "r mod 16"] by auto
      next
        case 4
        then show ?thesis
          using DecodeRune_multibyte [OF lead dec, of "[]"] by fastforce
      qed
    qed
  qed
qed

lemma Marshal_printable: "Marshal entry = Inr bytes \<Longrightarrow> x \<in> set bytes \<Longrightarrow> 0x20 \<le> byte x"
  by (auto simp: Marshal_def appendString_def dest: appendString_loop_printable)

lemma Marshal_no_LF: "Marshal entry = Inr bytes \<Longrightarrow> LF \<notin> set bytes"
  by (auto dest: Marshal_printable)

section \<open>Marshal and Unmarshal\<close>

lemma unquote_appendString:
  "appendString s @ X = DQ # appendString_loop s @ DQ # X"
  "unquote_loop (appendString_loop s @ DQ # X) = Some (coerceUTF8 s, X)"
  by (simp_all add: appendString_def unquote_appendString_loop)

lemma unquote_key: "unquote_loop (CHR ''k'' # CHR ''e'' # CHR ''y'' # DQ # X) = Some (''key'', X)"
  by (simp add: unquote_loop_plain unquote_loop_quote)

lemma unquote_value:
  "unquote_loop (CHR ''v'' # CHR ''a'' # CHR ''l'' # CHR ''u'' # CHR ''e'' # DQ # X)
     = Some (''value'', X)"
  by (simp add: unquote_loop_plain unquote_loop_quote)

lemma parse_value_string:
  "unquote_loop r = Some (v, r') \<Longrightarrow> parse_value d (DQ # r) = Some (JString v, r')"
  by (subst parse_value.simps) simp

lemma skip_ws_nonspace: "\<not> isSpace c \<Longrightarrow> skip_ws (c # r) = c # r"
  by (simp add: skip_ws_def)

lemma parse_members_last:
  assumes "unquote_loop r = Some (k, CHR '':'' # DQ # r2)"
    and "unquote_loop r2 = Some (v, CHR ''}'' # r4)"
    and "Suc (Suc (length r2)) < length r" and "length r4 < length r2"
  shows "parse_members d (DQ # r) = Some ([(k, JString v)], r4)"
  using assms
  by (subst parse_members.simps)
     (simp add: skip_ws_nonspace isSpace_def parse_value_string)

lemma parse_members_more:
  assumes "unquote_loop r = Some (k, CHR '':'' # DQ # r2)"
    and "unquote_loop r2 = Some (v, CHR '','' # DQ # r4)"
    and "Suc (Suc (length r2)) < length r" and "Suc (length r4) < length r2"
    and "parse_members d (DQ # r4) = Some (ms, r5)"
  shows "parse_members d (DQ # r) = Some ((k, JString v) # ms, r5)"
  using assms
  by (subst parse_members.simps)
     (simp add: skip_ws_nonspace isSpace_def parse_value_string)

lemma Unmarshal_Marshal:
  assumes m: "Marshal entry = Inr bytes" and ws: "skip_ws ws = []"
  shows "Unmarshal (bytes @ ws) = Inr \<lparr>Key = coerceUTF8 (Key entry), Value = coerceUTF8 (Value entry)\<rparr>"
proof -
  let ?A = "appendString_loop (Key entry)" and ?B = "appendString_loop (Value entry)"
  let ?r2 = "?B @ DQ # CHR ''}'' # ws"
  let ?r1 = "CHR ''v'' # CHR ''a'' # CHR ''l'' # CHR ''u'' # CHR ''e'' # DQ # CHR '':'' # DQ # ?r2"
  let ?r0 = "CHR ''k'' # CHR ''e'' # CHR ''y'' # DQ # CHR '':'' # DQ # ?A @ DQ # CHR '','' # DQ # ?r1"
  have bytes: "bytes @ ws = CHR ''{'' # DQ # ?r0"
    using m by (auto simp: Marshal_def appendString_def)
  have m2: "parse_members (Suc 0) (DQ # ?r1) = Some ([(''value'', JString (coerceUTF8 (Value entry)))], ws)"
    by (rule parse_members_last [where ?r2.0 = "?r2"])
       (simp_all add: unquote_value unquote_appendString_loop)
  have m1: "parse_members (Suc 0) (DQ # ?r0)
              = Some ([(''key'', JString (coerceUTF8 (Key entry))),
                       (''value'', JString (coerceUTF8 (Value entry)))], ws)"
    by (rule parse_members_more [where ?r2.0 = "?A @ DQ # CHR '','' # DQ # ?r1" and ?r4.0 = "?r1"])
       (simp_all add: unquote_key unquote_appendString_loop m2)
  have pv: "parse_value 0 (CHR ''{'' # DQ # ?r0)
              = Some (JObject [(''key'', JString (coerceUTF8 (Key entry))),
                               (''value'', JString (coerceUTF8 (Value entry)))], ws)"
    by (subst parse_value.simps)
       (simp add: skip_ws_nonspace isSpace_def maxNestingDepth_def m1)
  show ?thesis
    unfolding bytes Unmarshal_def
    by (simp add: skip_ws_nonspace isSpace_def pv ws findField_def setField_def)
qed

section \<open>Get after Set\<close>

lemma Marshal_total: "\<exists>bytes. Marshal entry = Inr bytes"
  by (simp add: Marshal_def)

lemma Set_succeeds_state:
  assumes "fst (Set k v db fs) = None"
  obtains b bytes where "closed (file db) = False" and "contents (file db) fs = Some b"
    and "Marshal \<lparr>Key = k, Value = v\<rparr> = Inr bytes"
    and "fst (snd (Set k v db fs)) = db\<lparr>data := (data db)(k \<mapsto> length b)\<rparr>"
    and "snd (snd (Set k v db fs)) = fs(name (file db) := Regular (b @ bytes @ [LF]))"
  using assms
  by (auto simp: Set_def Let_def Seek_End_def Write_def
        split: sum.splits option.splits if_splits)

lemma ReadString_record:
  assumes "closed f = False" and "contents f fs = Some (b @ bytes @ [LF] @ rest)"
    and "LF \<notin> set bytes"
  shows "ReadString f (length b) fs = Inr (bytes @ [LF])"
proof -
  have "takeWhile (\<lambda>c. c \<noteq> LF) (bytes @ LF # rest) = bytes"
    using assms(3) by (auto simp: takeWhile_tail)
  then show ?thesis
    using assms(1,2) by (simp add: ReadString_def Let_def)
qed

lemma skip_ws_LF: "skip_ws [LF] = []"
  by (simp add: skip_ws_def isSpace_def)

lemma Get_record:
  assumes "data db k = Some (length b)" and "closed (file db) = False"
    and "contents (file db) fs = Some (b @ bytes @ [LF] @ rest)"
    and "Marshal \<lparr>Key = k', Value = v\<rparr> = Inr bytes"
  shows "Get k db fs = Inr (coerceUTF8 v)"
proof -
  have "ReadString (file db) (length b) fs = Inr (bytes @ [LF])"
    using assms(2,3) Marshal_no_LF [OF assms(4)] by (rule ReadString_record)
  moreover have "Unmarshal (bytes @ [LF]) = Inr \<lparr>Key = coerceUTF8 k', Value = coerceUTF8 v\<rparr>"
    using Unmarshal_Marshal [OF assms(4) skip_ws_LF] by simp
  ultimately show ?thesis
    using assms(1,2) by (simp add: Get_def Seek_Set_def)
qed

text \<open>
  For any value, Get after a Set that succeeds returns the value coerced to UTF-8.
\<close>

lemma Get_after_Set_coerced:
  assumes "fst (Set k v db fs) = None"
  shows "Get k (fst (snd (Set k v db fs))) (snd (snd (Set k v db fs))) = Inr (coerceUTF8 v)"
proof -
  from assms obtain b bytes where st: "closed (file db) = False" "contents (file db) fs = Some b"
    "Marshal \<lparr>Key = k, Value = v\<rparr> = Inr bytes"
    "fst (snd (Set k v db fs)) = db\<lparr>data := (data db)(k \<mapsto> length b)\<rparr>"
    "snd (snd (Set k v db fs)) = fs(name (file db) := Regular (b @ bytes @ [LF]))"
    by (rule Set_succeeds_state)
  show ?thesis
    unfolding st(4,5)
    by (rule Get_record [where b = b and bytes = bytes and rest = "[]" and k' = k])
       (simp_all add: st contents_def)
qed

lemma ValidString_ascii: "\<forall>c\<in>set s. byte c < 0x80 \<Longrightarrow> ValidString s"
proof (induction s)
  case Nil
  then show ?case by (subst ValidString.simps) simp
next
  case (Cons c cs)
  then show ?case
    by (subst ValidString.simps) (simp add: DecodeRune_ascii RuneError_def)
qed

lemma exampleDB_open:
  "closed (file exampleDB) = False"
  "contents (file exampleDB) exampleFS \<noteq> None"
  by (simp_all add: exampleDB_def exampleFS_def contents_def)

lemma Set_open:
  "closed (file db) = False \<Longrightarrow> contents (file db) fs \<noteq> None \<Longrightarrow> fst (Set k v db fs) = None"
  by (auto simp: Set_def Let_def Marshal_def Seek_End_def Write_def split: option.splits)

text \<open>
  C1, amended.  For every key and value: when Set succeeds, Get of the key in the state that
  Set leaves succeeds and returns the value coerced to UTF-8, which is the value itself for
  every value that is well-formed UTF-8.
\<close>

theorem Get_after_Set:
  assumes "fst (Set k v db fs) = None"
  shows "Get k (fst (snd (Set k v db fs))) (snd (snd (Set k v db fs))) = Inr (coerceUTF8 v)
         \<and> (ValidString v \<longrightarrow>
              Get k (fst (snd (Set k v db fs))) (snd (snd (Set k v db fs))) = Inr v)"
  using Get_after_Set_coerced [OF assms] coerceUTF8_valid [of v] by simp

theorem Get_after_Set_witness:
  "fst (Set ''b'' ''2'' exampleDB exampleFS) = None
   \<and> ValidString ''2''
   \<and> Get ''b'' (fst (snd (Set ''b'' ''2'' exampleDB exampleFS)))
        (snd (snd (Set ''b'' ''2'' exampleDB exampleFS))) = Inr ''2''"
proof -
  have h1: "fst (Set ''b'' ''2'' exampleDB exampleFS) = None"
    by (rule Set_open) (rule exampleDB_open)+
  have h2: "ValidString ''2''"
    by (rule ValidString_ascii) simp
  show ?thesis
    using h1 h2 Get_after_Set [OF h1] by blast
qed

lemma coerceUTF8_FF: "coerceUTF8 [CHR 0xFF] = [CHR 0xEF, CHR 0xBF, CHR 0xBD]"
  by (subst coerceUTF8.simps) (simp add: DecodeRune_def)

text \<open>
  C1 as stated does not hold for every value: after a Set of the one byte 0xFF that succeeds,
  Get returns the three bytes of U+FFFD.
\<close>

theorem Get_after_Set_ill_formed_value:
  "fst (Set ''b'' [CHR 0xFF] exampleDB exampleFS) = None
   \<and> Get ''b'' (fst (snd (Set ''b'' [CHR 0xFF] exampleDB exampleFS)))
        (snd (snd (Set ''b'' [CHR 0xFF] exampleDB exampleFS))) = Inr [CHR 0xEF, CHR 0xBF, CHR 0xBD]
   \<and> Get ''b'' (fst (snd (Set ''b'' [CHR 0xFF] exampleDB exampleFS)))
        (snd (snd (Set ''b'' [CHR 0xFF] exampleDB exampleFS))) \<noteq> Inr [CHR 0xFF]"
proof -
  have h1: "fst (Set ''b'' [CHR 0xFF] exampleDB exampleFS) = None"
    by (rule Set_open) (rule exampleDB_open)+
  show ?thesis
    using h1 Get_after_Set_coerced [OF h1] by (simp add: coerceUTF8_FF)
qed

section \<open>The record as written and as read back\<close>

lemma skip_ws_Nil: "skip_ws [] = []"
  by (simp add: skip_ws_def)

lemma Scan_record:
  assumes "Marshal entry = Inr bytes" and "length bytes < MaxScanTokenSize"
  shows "Scan (bytes @ [LF] @ rest) = Inr (Some (bytes, rest))"
proof -
  have noLF: "\<forall>x\<in>set bytes. x \<noteq> LF"
    using Marshal_no_LF [OF assms(1)] by auto
  then have t: "takeWhile (\<lambda>c. c \<noteq> LF) (bytes @ LF # rest) = bytes"
    by (simp add: takeWhile_tail)
  have "last bytes \<noteq> CR" if "bytes \<noteq> []"
  proof -
    have "0x20 \<le> byte (last bytes)"
      using assms(1) last_in_set [OF that] by (rule Marshal_printable)
    then show ?thesis by auto
  qed
  then have "dropCR bytes = bytes"
    by (auto simp: dropCR_def)
  then show ?thesis
    using t assms(2) by (simp add: Scan_def Let_def)
qed

text \<open>
  C8, amended.  For every key and value the record that Marshal produces, and Set appends with
  a line feed after it, contains no line feed (no byte below 0x20 at all), so the scanner of
  OpenDB gets it back as one line, as long as it fits the scanner's buffer.  Decoding it, with
  the line feed (Get) or without (the scan), gives the key and the value with each byte that
  belongs to no well-formed UTF-8 sequence replaced by U+FFFD; it gives exactly the key and
  the value when both are well-formed UTF-8.
\<close>

theorem Marshal_then_Unmarshal:
  "\<exists>bytes. Marshal \<lparr>Key = k, Value = v\<rparr> = Inr bytes
     \<and> LF \<notin> set bytes
     \<and> (fst (Set k v db fs) = None \<longrightarrow>
          (\<exists>b. contents (file db) fs = Some b
             \<and> contents (file db) (snd (snd (Set k v db fs))) = Some (b @ bytes @ [LF])))
     \<and> (length bytes < MaxScanTokenSize \<longrightarrow>
          Scan (bytes @ [LF] @ rest) = Inr (Some (bytes, rest)))
     \<and> Unmarshal bytes = Inr \<lparr>Key = coerceUTF8 k, Value = coerceUTF8 v\<rparr>
     \<and> Unmarshal (bytes @ [LF]) = Inr \<lparr>Key = coerceUTF8 k, Value = coerceUTF8 v\<rparr>
     \<and> (ValidString k \<and> ValidString v \<longrightarrow>
          Unmarshal bytes = Inr \<lparr>Key = k, Value = v\<rparr>
          \<and> Unmarshal (bytes @ [LF]) = Inr \<lparr>Key = k, Value = v\<rparr>)"
proof -
  obtain bytes where m: "Marshal \<lparr>Key = k, Value = v\<rparr> = Inr bytes"
    using Marshal_total by blast
  have u1: "Unmarshal bytes = Inr \<lparr>Key = coerceUTF8 k, Value = coerceUTF8 v\<rparr>"
    using Unmarshal_Marshal [OF m skip_ws_Nil] by simp
  have u2: "Unmarshal (bytes @ [LF]) = Inr \<lparr>Key = coerceUTF8 k, Value = coerceUTF8 v\<rparr>"
    using Unmarshal_Marshal [OF m skip_ws_LF] by simp
  have w: "\<exists>b. contents (file db) fs = Some b
             \<and> contents (file db) (snd (snd (Set k v db fs))) = Some (b @ bytes @ [LF])"
    if "fst (Set k v db fs) = None"
    using that m by (elim Set_succeeds_state) (simp add: contents_def)
  show ?thesis
    using m Marshal_no_LF [OF m] Scan_record [OF m] u1 u2 w
    by (intro exI [of _ bytes]) (simp add: coerceUTF8_valid)
qed

lemma Marshal_example_LF:
  "Marshal \<lparr>Key = ''a'', Value = [LF]\<rparr>
     = Inr (''{'' @ [DQ] @ ''key'' @ [DQ] @ '':'' @ [DQ] @ ''a'' @ [DQ] @ '',''
            @ [DQ] @ ''value'' @ [DQ] @ '':'' @ [DQ] @ [BSL] @ ''n'' @ [DQ] @ ''}'')"
  by (simp add: Marshal_def appendString_def appendString_loop_ascii htmlSafeSet_def
        escapeByte_def)

theorem Marshal_then_Unmarshal_witness:
  "fst (Set ''a'' [LF] exampleDB exampleFS) = None
   \<and> ValidString ''a'' \<and> ValidString [LF]
   \<and> (\<exists>bytes. Marshal \<lparr>Key = ''a'', Value = [LF]\<rparr> = Inr bytes
         \<and> length bytes < MaxScanTokenSize
         \<and> LF \<notin> set bytes
         \<and> Scan (bytes @ [LF]) = Inr (Some (bytes, []))
         \<and> Unmarshal bytes = Inr \<lparr>Key = ''a'', Value = [LF]\<rparr>
         \<and> Unmarshal (bytes @ [LF]) = Inr \<lparr>Key = ''a'', Value = [LF]\<rparr>)"
proof -
  have h1: "fst (Set ''a'' [LF] exampleDB exampleFS) = None"
    by (rule Set_open) (rule exampleDB_open)+
  have h2: "ValidString ''a''" "ValidString [LF]"
    by (rule ValidString_ascii, simp)+
  have h3: "Marshal \<lparr>Key = ''a'', Value = [LF]\<rparr> = Inr bytes \<Longrightarrow> length bytes < MaxScanTokenSize"
    for bytes
    by (auto simp: Marshal_example_LF MaxScanTokenSize_def)
  show ?thesis
    using h1 h2 h3
      Marshal_then_Unmarshal [of "''a''" "[LF]" exampleDB exampleFS "[]"]
    by auto
qed

text \<open>
  C8 as stated does not hold for every value: the byte 0xFF is no UTF-8, is written as the
  escape of U+FFFD, and is decoded as the three bytes of U+FFFD.
\<close>

theorem Marshal_then_Unmarshal_ill_formed:
  "(case Marshal \<lparr>Key = ''a'', Value = [CHR 0xFF]\<rparr> of
      Inl err \<Rightarrow> False
    | Inr bytes \<Rightarrow>
        Unmarshal bytes = Inr \<lparr>Key = ''a'', Value = [CHR 0xEF, CHR 0xBF, CHR 0xBD]\<rparr>
        \<and> Unmarshal bytes \<noteq> Inr \<lparr>Key = ''a'', Value = [CHR 0xFF]\<rparr>)"
proof -
  obtain bytes where m: "Marshal \<lparr>Key = ''a'', Value = [CHR 0xFF]\<rparr> = Inr bytes"
    using Marshal_total by blast
  have "coerceUTF8 ''a'' = ''a''"
    by (simp add: coerceUTF8_ascii)
  then have "Unmarshal bytes = Inr \<lparr>Key = ''a'', Value = [CHR 0xEF, CHR 0xBF, CHR 0xBD]\<rparr>"
    using Unmarshal_Marshal [OF m skip_ws_Nil] by (simp add: coerceUTF8_FF)
  then show ?thesis
    by (simp add: m)
qed

section \<open>Histories and the records of a log\<close>

lemma latest_Nil [simp]: "latest k [] = None"
  by (simp add: latest_def)

lemma latest_alt:
  "latest k h = (if filter (\<lambda>r. fst r = k) h = [] then None
                 else Some (snd (last (filter (\<lambda>r. fst r = k) h))))"
  by (simp add: latest_def split: list.splits)

lemma latest_Cons:
  "latest k (r # h) =
     (case latest k h of Some x \<Rightarrow> Some x | None \<Rightarrow> if fst r = k then Some (snd r) else None)"
  by (simp add: latest_alt)

lemma latest_snoc:
  "latest k (h @ [r]) = (if fst r = k then Some (snd r) else latest k h)"
  by (simp add: latest_alt)

lemma latest_mem: "latest k h = Some (off, bytes) \<Longrightarrow> (k, off, bytes) \<in> set h"
proof -
  assume a: "latest k h = Some (off, bytes)"
  then have ne: "filter (\<lambda>r. fst r = k) h \<noteq> []" and l: "snd (last (filter (\<lambda>r. fst r = k) h)) = (off, bytes)"
    by (auto simp: latest_def split: list.splits)
  from ne have "last (filter (\<lambda>r. fst r = k) h) \<in> set (filter (\<lambda>r. fst r = k) h)"
    by (rule last_in_set)
  then have "last (filter (\<lambda>r. fst r = k) h) \<in> set h" "fst (last (filter (\<lambda>r. fst r = k) h)) = k"
    by auto
  with l show ?thesis by (metis prod.collapse)
qed

lemma records_from_Nil [simp]: "records_from offset [] = []"
  by (subst records_from.simps) simp

lemma records_from_Cons:
  "buf \<noteq> [] \<Longrightarrow> records_from offset buf =
     (offset, takeWhile (\<lambda>c. c \<noteq> LF) buf)
       # records_from (offset + length (takeWhile (\<lambda>c. c \<noteq> LF) buf) + 1)
           (drop (length (takeWhile (\<lambda>c. c \<noteq> LF) buf) + 1) buf)"
  by (subst records_from.simps) (simp add: Let_def)

lemma records_from_in_log:
  "(off, line) \<in> set (records_from offset buf)
     \<Longrightarrow> offset \<le> off \<and> (off - offset) + length line \<le> length buf
         \<and> take (length line) (drop (off - offset) buf) = line"
proof (induction offset buf rule: records_from.induct)
  case (1 offset buf)
  show ?case
  proof (cases "buf = []")
    case True
    with "1.prems" show ?thesis by simp
  next
    case False
    let ?line = "takeWhile (\<lambda>c. c \<noteq> LF) buf"
    let ?n = "length ?line + 1"
    from "1.prems" False consider (head) "off = offset" "line = ?line"
      | (tail) "(off, line) \<in> set (records_from (offset + length ?line + 1) (drop ?n buf))"
      by (auto simp: records_from_Cons)
    then show ?thesis
    proof cases
      case head
      have "take (length ?line) buf = ?line"
        by (metis append_eq_conv_conj takeWhile_dropWhile_id)
      then show ?thesis using head by (simp add: length_takeWhile_le)
    next
      case tail
      then have "drop ?n buf \<noteq> []" by auto
      then have n: "?n < length buf" by simp
      define d where "d = off - (offset + length ?line + 1)"
      from "1.IH" [OF False refl tail]
      have ih: "offset + length ?line + 1 \<le> off" "d + length line \<le> length (drop ?n buf)"
        "take (length line) (drop d (drop ?n buf)) = line"
        unfolding d_def by blast+
      have e: "off - offset = ?n + d"
        using ih(1) unfolding d_def by linarith
      have "drop d (drop ?n buf) = drop (off - offset) buf"
        unfolding e by (simp only: drop_drop add.commute)
      moreover have "(off - offset) + length line \<le> length buf"
        using ih(2) n unfolding e length_drop by linarith
      ultimately show ?thesis using ih by auto
    qed
  qed
qed

section \<open>The index that OpenDB builds\<close>

lemma CRLF_only_at_end_drop: "CRLF_only_at_end buf \<Longrightarrow> CRLF_only_at_end (drop n buf)"
proof (induction n arbitrary: buf)
  case 0
  then show ?case by simp
next
  case (Suc n)
  have tl: "CRLF_only_at_end (tl buf)"
    using Suc.prems by (induction buf rule: CRLF_only_at_end.induct) simp_all
  show ?case
    using Suc.IH [OF tl] by (simp add: drop_Suc)
qed

lemma CRLF_line:
  "CRLF_only_at_end (line @ LF # rest) \<Longrightarrow> rest \<noteq> [] \<Longrightarrow> dropCR line = line"
proof (induction line)
  case Nil
  then show ?case by (simp add: dropCR_def)
next
  case (Cons c line)
  show ?case
  proof (cases line)
    case Nil
    with Cons.prems show ?thesis
      by (cases rest) (auto simp: dropCR_def)
  next
    case (Cons d line')
    have "CRLF_only_at_end (drop 1 (c # line @ LF # rest))"
      using Cons.prems(1) by (intro CRLF_only_at_end_drop) simp
    then have "CRLF_only_at_end (line @ LF # rest)"
      by simp
    then have "dropCR line = line"
      using Cons.prems(2) by (rule Cons.IH)
    then show ?thesis
      using Cons by (auto simp: dropCR_def split: if_splits)
  qed
qed

lemma split_at_LF:
  "drop (length (takeWhile (\<lambda>c. c \<noteq> LF) buf) + 1) buf \<noteq> []
     \<Longrightarrow> buf = takeWhile (\<lambda>c. c \<noteq> LF) buf @ LF
           # drop (length (takeWhile (\<lambda>c. c \<noteq> LF) buf) + 1) buf"
proof -
  let ?line = "takeWhile (\<lambda>c. c \<noteq> LF) buf" and ?tail = "dropWhile (\<lambda>c. c \<noteq> LF) buf"
  assume a: "drop (length ?line + 1) buf \<noteq> []"
  have id: "buf = ?line @ ?tail"
    by simp
  have "?tail \<noteq> []"
  proof
    assume "?tail = []"
    with id have "buf = ?line" by simp
    then have "length buf = length ?line" by simp
    with a show False by simp
  qed
  then obtain x r where r: "?tail = x # r"
    by (cases ?tail) auto
  have "x = LF"
    using hd_dropWhile [of "\<lambda>c. c \<noteq> LF" buf] r by simp
  with r id have buf: "buf = ?line @ LF # r"
    by simp
  have "drop (length ?line + 1) (?line @ LF # r) = r"
    by simp
  with buf have "drop (length ?line + 1) buf = r"
    by simp
  with buf show ?thesis by simp
qed

text \<open>
  What the loop of \<^verbatim>\<open>loadIndex\<close> leaves in the index, when it ends without an error on such a
  file: for each key the offset, as the records of the file have it, of the last record that
  decodes to the key.
\<close>

lemma loadIndex_loop_latest:
  "loadIndex_loop buf offset idx0 = (None, idx) \<Longrightarrow> CRLF_only_at_end buf
     \<Longrightarrow> idx k = (case latest k (List.map_filter record_of_line (records_from offset buf)) of
                    Some (off, bytes) \<Rightarrow> Some off
                  | None \<Rightarrow> idx0 k)"
proof (induction buf offset idx0 rule: loadIndex_loop.induct)
  case (1 buf offset idx0)
  show ?case
  proof (cases "buf = []")
    case True
    with "1.prems" show ?thesis
      by (simp add: loadIndex_loop_Nil)
  next
    case False
    let ?raw = "takeWhile (\<lambda>c. c \<noteq> LF) buf"
    let ?rest = "drop (length ?raw + 1) buf"
    from "1.prems"(1) False have scan: "Scan buf = Inr (Some (dropCR ?raw, ?rest))"
      by (subst (asm) loadIndex_loop.simps) (auto simp: Scan_def Let_def split: if_splits)
    with "1.prems"(1) obtain entry where un: "Unmarshal (dropCR ?raw) = Inr entry"
      by (subst (asm) loadIndex_loop.simps) (auto split: sum.splits)
    let ?off' = "offset + (length (dropCR ?raw) + 1)"
    have rec: "loadIndex_loop ?rest ?off' (idx0(Key entry \<mapsto> offset)) = (None, idx)"
      using "1.prems"(1) scan un by (simp add: loadIndex_loop_line)
    have crlf: "CRLF_only_at_end ?rest"
      using "1.prems"(2) by (rule CRLF_only_at_end_drop)
    have ih: "idx k = (case latest k (List.map_filter record_of_line (records_from ?off' ?rest)) of
                         Some (off, bytes) \<Rightarrow> Some off
                       | None \<Rightarrow> (idx0(Key entry \<mapsto> offset)) k)"
      by (rule "1.IH" [OF scan refl refl un rec crlf])
    have same: "records_from ?off' ?rest = records_from (offset + length ?raw + 1) ?rest"
    proof (cases "?rest = []")
      case True
      then show ?thesis by simp
    next
      case nonempty: False
      have "buf = ?raw @ LF # ?rest"
        using nonempty by (rule split_at_LF)
      then have "CRLF_only_at_end (?raw @ LF # ?rest)"
        using "1.prems"(2) by simp
      then have "dropCR ?raw = ?raw"
        using nonempty by (rule CRLF_line)
      then show ?thesis by simp
    qed
    have "records_from offset buf = (offset, ?raw) # records_from ?off' ?rest"
      using records_from_Cons [OF False, of offset] same by simp
    then have "List.map_filter record_of_line (records_from offset buf)
            = (Key entry, offset, ?raw)
                # List.map_filter record_of_line (records_from ?off' ?rest)"
      using un by (simp add: List.map_filter_simps record_of_line_def)
    then show ?thesis
      using ih by (auto simp: latest_Cons split: option.splits)
  qed
qed

section \<open>The invariant of the index\<close>

text \<open>
  The invariant, for a store, its file system and the history of the records appended: the
  file of the store is there; every key of the index maps to the offset of the last record of
  the history that is for this key; and every record of the history is in the log at its
  offset.
\<close>

definition index_inv :: "SimpleDB \<Rightarrow> filesystem \<Rightarrow> appended list \<Rightarrow> bool" where
  "index_inv db fs h =
     (\<exists>log. contents (file db) fs = Some log
        \<and> (\<forall>k off. data db k = Some off \<longrightarrow> (\<exists>bytes. latest k h = Some (off, bytes)))
        \<and> (\<forall>k off bytes. (k, off, bytes) \<in> set h \<longrightarrow>
              off + length bytes \<le> length log \<and> take (length bytes) (drop off log) = bytes))"

lemma Set_fails_state: "fst (Set k v db fs) \<noteq> None \<Longrightarrow> snd (Set k v db fs) = (db, fs)"
  by (auto simp: Set_def Let_def split: sum.splits)

lemma index_inv_Set:
  assumes inv: "index_inv db fs h" and ok: "fst (Set k v db fs) = None"
  shows "index_inv (fst (snd (Set k v db fs))) (snd (snd (Set k v db fs)))
           (h @ record_of_call (CallSet k v) (db, fs))"
proof -
  from ok obtain b bytes where st: "closed (file db) = False" "contents (file db) fs = Some b"
    "Marshal \<lparr>Key = k, Value = v\<rparr> = Inr bytes"
    "fst (snd (Set k v db fs)) = db\<lparr>data := (data db)(k \<mapsto> length b)\<rparr>"
    "snd (snd (Set k v db fs)) = fs(name (file db) := Regular (b @ bytes @ [LF]))"
    by (rule Set_succeeds_state)
  have rec: "record_of_call (CallSet k v) (db, fs) = [(k, length b, bytes)]"
    using ok st by (simp add: record_of_call_def)
  from inv st(2) have idx: "\<And>k' off. data db k' = Some off \<Longrightarrow> \<exists>bs. latest k' h = Some (off, bs)"
    and old: "\<And>k' off bs. (k', off, bs) \<in> set h \<Longrightarrow>
                off + length bs \<le> length b \<and> take (length bs) (drop off b) = bs"
    by (auto simp: index_inv_def)
  have "contents (file db) (fs(name (file db) := Regular (b @ bytes @ [LF])))
          = Some (b @ bytes @ [LF])"
    by (simp add: contents_def)
  moreover have "\<exists>bs. latest k' (h @ [(k, length b, bytes)]) = Some (off, bs)"
    if "((data db)(k \<mapsto> length b)) k' = Some off" for k' off
    using that idx [of k' off] by (auto simp: latest_snoc split: if_splits)
  moreover have "off + length bs \<le> length (b @ bytes @ [LF])
                 \<and> take (length bs) (drop off (b @ bytes @ [LF])) = bs"
    if "(k', off, bs) \<in> set (h @ [(k, length b, bytes)])" for k' off bs
  proof (cases "(k', off, bs) \<in> set h")
    case True
    from old [OF True] show ?thesis by simp
  next
    case False
    with that have "off = length b" "bs = bytes" by auto
    then show ?thesis by simp
  qed
  ultimately show ?thesis
    unfolding rec st(4,5) index_inv_def by (intro exI [of _ "b @ bytes @ [LF]"]) auto
qed

lemma index_inv_step:
  assumes "index_inv db fs h"
  shows "index_inv (fst (step c (db, fs))) (snd (step c (db, fs))) (h @ record_of_call c (db, fs))"
proof (cases c)
  case (CallSet k v)
  show ?thesis
  proof (cases "fst (Set k v db fs) = None")
    case True
    with assms show ?thesis
      unfolding CallSet by (simp add: index_inv_Set)
  next
    case False
    with assms show ?thesis
      unfolding CallSet by (auto simp: Set_fails_state record_of_call_def)
  qed
next
  case (CallGet k)
  with assms show ?thesis by (simp add: record_of_call_def)
next
  case (CallDelete k)
  with assms show ?thesis
    by (auto simp: record_of_call_def index_inv_def Delete_def contents_def
          split: option.splits)
next
  case CallClose
  with assms show ?thesis
    by (auto simp: record_of_call_def index_inv_def Close_def File_Close_def contents_def
          split: if_splits)
qed

lemma index_inv_run:
  "index_inv (fst st) (snd st) h
     \<Longrightarrow> index_inv (fst (run cs st)) (snd (run cs st)) (h @ appended_records cs st)"
proof (induction cs arbitrary: st h)
  case Nil
  then show ?case by simp
next
  case (Cons c cs)
  obtain db fs where st: "st = (db, fs)" by (cases st)
  from Cons.prems have "index_inv (fst (step c st)) (snd (step c st)) (h @ record_of_call c st)"
    unfolding st by (simp add: index_inv_step)
  from Cons.IH [OF this] show ?case by simp
qed

lemma OpenDB_state:
  assumes "OpenDB p fs = (Inr db, fs')"
  shows "fs' p = Regular (bytes_at p fs)" and "file db = \<lparr>name = p, closed = False\<rparr>"
    and "loadIndex_loop (bytes_at p fs) 0 Map.empty = (None, data db)"
  using assms
  by (auto simp: OpenDB_def OpenFile_def loadIndex_def contents_def bytes_at_def Let_def
        split: entry.splits prod.splits option.splits)

lemma index_inv_OpenDB:
  assumes "OpenDB p fs = (Inr db, fs')" and "CRLF_only_at_end (bytes_at p fs)"
  shows "index_inv db fs' (scanned_records (bytes_at p fs))"
proof -
  let ?b = "bytes_at p fs"
  note st = OpenDB_state [OF assms(1)]
  have "contents (file db) fs' = Some ?b"
    using st(1,2) by (simp add: contents_def)
  moreover have "\<exists>bytes. latest k (scanned_records ?b) = Some (off, bytes)"
    if "data db k = Some off" for k off
    using that loadIndex_loop_latest [OF st(3) assms(2), of k]
    by (auto simp: scanned_records_def split: option.splits)
  moreover have "off + length bytes \<le> length ?b \<and> take (length bytes) (drop off ?b) = bytes"
    if "(k, off, bytes) \<in> set (scanned_records ?b)" for k off bytes
  proof -
    from that have "(off, bytes) \<in> set (records_from 0 ?b)"
      by (auto simp: scanned_records_def List.map_filter_def record_of_line_def
            split: sum.splits)
    from records_from_in_log [OF this] show ?thesis by simp
  qed
  ultimately show ?thesis
    unfolding index_inv_def by blast
qed

text \<open>
  The invariant on the files of the store's own format.  Let OpenDB succeed on a file in which
  no line but the last ends with a carriage return before its line feed (every file that only
  Set has written is one: its records hold no byte below 0x20).  Then in the state after any
  sequence of calls of Set, Get, Delete and Close, every key of the index maps to the offset
  of the record most recently appended for this key, among the records of the file as it was
  opened, under the keys they decode to, and the records of the Sets that have succeeded
  since; and the bytes of that record stand at that offset in the log.
\<close>

lemma index_points_to_latest_record:
  assumes "OpenDB p fs = (Inr db0, fs0)"
    and "CRLF_only_at_end (bytes_at p fs)"
    and "data (fst (run cs (db0, fs0))) k = Some off"
  shows "\<exists>bytes log.
           latest k (scanned_records (bytes_at p fs) @ appended_records cs (db0, fs0))
             = Some (off, bytes)
           \<and> contents (file (fst (run cs (db0, fs0)))) (snd (run cs (db0, fs0))) = Some log
           \<and> off + length bytes \<le> length log
           \<and> take (length bytes) (drop off log) = bytes"
proof -
  have "index_inv db0 fs0 (scanned_records (bytes_at p fs))"
    using assms(1,2) by (rule index_inv_OpenDB)
  then have inv: "index_inv (fst (run cs (db0, fs0))) (snd (run cs (db0, fs0)))
               (scanned_records (bytes_at p fs) @ appended_records cs (db0, fs0))"
    using index_inv_run [of "(db0, fs0)"] by simp
  then obtain log where log: "contents (file (fst (run cs (db0, fs0)))) (snd (run cs (db0, fs0))) = Some log"
    and idx: "\<And>k off. data (fst (run cs (db0, fs0))) k = Some off \<Longrightarrow>
      \<exists>bytes. latest k (scanned_records (bytes_at p fs) @ appended_records cs (db0, fs0)) = Some (off, bytes)"
    and recs: "\<And>k off bytes.
      (k, off, bytes) \<in> set (scanned_records (bytes_at p fs) @ appended_records cs (db0, fs0)) \<Longrightarrow>
        off + length bytes \<le> length log \<and> take (length bytes) (drop off log) = bytes"
    unfolding index_inv_def by blast
  from idx [OF assms(3)] obtain bytes
    where l: "latest k (scanned_records (bytes_at p fs) @ appended_records cs (db0, fs0)) = Some (off, bytes)"
    by blast
  from recs [OF latest_mem [OF l]] log l show ?thesis by blast
qed

lemma CRLF_example: "CRLF_only_at_end (bytes_at ''mydb.data'' exampleFS)"
  by (simp add: bytes_at_def exampleFS_def exampleLine_def)

lemma run_witnessCalls: "data (fst (run witnessCalls (exampleDB, exampleFS))) ''a'' = Some 24"
  by (simp add: witnessCalls_def Set_def Marshal_example Seek_End_def Write_def contents_def
        Delete_def exampleDB_def exampleFS_def example_lines)

lemma index_points_to_latest_record_example:
  "OpenDB ''mydb.data'' exampleFS = (Inr exampleDB, exampleFS)
   \<and> CRLF_only_at_end (bytes_at ''mydb.data'' exampleFS)
   \<and> data (fst (run witnessCalls (exampleDB, exampleFS))) ''a'' = Some 24
   \<and> (\<exists>bytes log.
         latest ''a'' (scanned_records (bytes_at ''mydb.data'' exampleFS)
                        @ appended_records witnessCalls (exampleDB, exampleFS)) = Some (24, bytes)
         \<and> contents (file (fst (run witnessCalls (exampleDB, exampleFS))))
               (snd (run witnessCalls (exampleDB, exampleFS))) = Some log
         \<and> 24 + length bytes \<le> length log
         \<and> take (length bytes) (drop 24 log) = bytes)"
  using OpenDB_example CRLF_example run_witnessCalls
    index_points_to_latest_record [OF OpenDB_example CRLF_example run_witnessCalls]
  by simp

lemma crlf_lines:
  "LF \<notin> set (exampleLine @ [CR])" "LF \<notin> set (exampleLine2 @ [CR])"
  "dropCR (exampleLine @ [CR]) = exampleLine" "dropCR (exampleLine2 @ [CR]) = exampleLine2"
  by (simp_all add: example_lines dropCR_def)

lemma loadIndex_loop_crlf:
  "loadIndex_loop (exampleLine @ CR # LF # exampleLine2 @ [CR, LF]) 0 Map.empty
     = (None, [''a'' \<mapsto> 0, ''b'' \<mapsto> 24])"
proof -
  have s1: "Scan ((exampleLine @ [CR]) @ LF # exampleLine2 @ [CR, LF])
              = Inr (Some (exampleLine, exampleLine2 @ [CR, LF]))"
    by (subst Scan_line) (simp_all add: crlf_lines example_lines MaxScanTokenSize_def)
  have s2: "Scan ((exampleLine2 @ [CR]) @ LF # []) = Inr (Some (exampleLine2, []))"
    by (subst Scan_line) (simp_all add: crlf_lines example_lines MaxScanTokenSize_def)
  have "loadIndex_loop (exampleLine2 @ [CR, LF]) 24 [''a'' \<mapsto> 0]
          = (None, [''a'' \<mapsto> 0, ''b'' \<mapsto> 24])"
    using s2
    by (subst loadIndex_loop_line [where line = exampleLine2 and rest = "[]"
            and entry = "\<lparr>Key = ''b'', Value = ''2''\<rparr>"])
       (simp_all add: Unmarshal_example loadIndex_loop_Nil)
  then show ?thesis
    using s1
    by (subst loadIndex_loop_line [where line = exampleLine and rest = "exampleLine2 @ [CR, LF]"
            and entry = "\<lparr>Key = ''a'', Value = ''1''\<rparr>"])
       (simp_all add: Unmarshal_example example_lines)
qed

lemma OpenDB_crlf: "OpenDB ''mydb.data'' crlfFS = (Inr crlfDB, crlfFS)"
  by (subst OpenDB_loadIndex [OF _ loadIndex_loop_crlf]) (simp_all add: crlfFS_def crlfDB_def)

lemma records_from_crlf:
  "records_from 0 (exampleLine @ CR # LF # exampleLine2 @ [CR, LF])
     = [(0, exampleLine @ [CR]), (25, exampleLine2 @ [CR])]"
proof -
  have t1: "takeWhile (\<lambda>c. c \<noteq> LF) ((exampleLine @ [CR]) @ LF # exampleLine2 @ [CR, LF])
              = exampleLine @ [CR]"
    by (rule takeWhile_line) (rule crlf_lines)
  have t2: "takeWhile (\<lambda>c. c \<noteq> LF) ((exampleLine2 @ [CR]) @ LF # []) = exampleLine2 @ [CR]"
    by (rule takeWhile_line) (rule crlf_lines)
  have r2: "records_from 25 (exampleLine2 @ [CR, LF]) = [(25, exampleLine2 @ [CR])]"
    using t2 by (subst records_from_Cons) (simp_all add: example_lines)
  show ?thesis
    using t1 r2 by (subst records_from_Cons) (simp_all add: example_lines)
qed

lemma Get_crlf: "Get ''b'' crlfDB crlfFS = Inl EncodingError"
proof -
  have "drop 24 ((exampleLine @ [CR]) @ LF # exampleLine2 @ [CR, LF])
          = LF # exampleLine2 @ [CR, LF]"
    by (subst drop_append) (simp add: example_lines)
  then have "drop 24 (exampleLine @ CR # LF # exampleLine2 @ [CR, LF])
          = LF # exampleLine2 @ [CR, LF]"
    by simp
  then show ?thesis
    by (simp add: Get_def crlfDB_def crlfFS_def Seek_Set_def ReadString_def contents_def
          Let_def Unmarshal_example)
qed

text \<open>
  C3.  The index after OpenDB on a file whose lines end with a carriage return and a line
  feed.  The scanner drops the carriage return of such a line, and \<^verbatim>\<open>loadIndex\<close>, which keeps
  the byte offset of the next record by adding the length of each line plus one for the line
  feed, does not count it.  On the file of two such lines OpenDB succeeds, the index has the
  key \<open>b\<close> at 24, the most recently appended record of \<open>b\<close> starts at 25, not at 24 as the
  invariant states, the byte at 24 is the line feed of the first record, and Get of \<open>b\<close>
  reads an empty line there and fails.
\<close>

theorem index_after_CRLF_file:
  "OpenDB ''mydb.data'' crlfFS = (Inr crlfDB, crlfFS)
   \<and> data (fst (run [] (crlfDB, crlfFS))) ''b'' = Some 24
   \<and> latest ''b'' (scanned_records (bytes_at ''mydb.data'' crlfFS)
                    @ appended_records [] (crlfDB, crlfFS)) = Some (25, exampleLine2 @ [CR])
   \<and> (24 :: nat) \<noteq> 25
   \<and> bytes_at ''mydb.data'' crlfFS ! 24 = LF
   \<and> Get ''b'' crlfDB crlfFS = Inl EncodingError"
proof -
  have "scanned_records (bytes_at ''mydb.data'' crlfFS)
          = [(''a'', 0, exampleLine @ [CR]), (''b'', 25, exampleLine2 @ [CR])]"
    by (simp add: scanned_records_def bytes_at_def crlfFS_def records_from_crlf
          List.map_filter_simps record_of_line_def crlf_lines Unmarshal_example)
  moreover have "data crlfDB ''b'' = Some 24"
    by (simp add: crlfDB_def)
  moreover have "bytes_at ''mydb.data'' crlfFS ! 24 = LF"
    by (simp add: bytes_at_def crlfFS_def nth_append example_lines)
  ultimately show ?thesis
    by (simp add: OpenDB_crlf Get_crlf latest_alt)
qed

section \<open>Files that the store has written\<close>

lemma CRLF_only_at_end_no_CR: "CR \<notin> set b \<Longrightarrow> CRLF_only_at_end b"
  by (induction b rule: CRLF_only_at_end.induct) auto

lemma step_keeps_no_CR:
  assumes "name (file db) = p" and "CR \<notin> set (bytes_at p fs)"
  shows "name (file (fst (step c (db, fs)))) = p \<and> CR \<notin> set (bytes_at p (snd (step c (db, fs))))"
proof (cases c)
  case (CallSet k v)
  show ?thesis
  proof (cases "fst (Set k v db fs) = None")
    case True
    then obtain b bytes where st: "contents (file db) fs = Some b"
      "Marshal \<lparr>Key = k, Value = v\<rparr> = Inr bytes"
      "fst (snd (Set k v db fs)) = db\<lparr>data := (data db)(k \<mapsto> length b)\<rparr>"
      "snd (snd (Set k v db fs)) = fs(name (file db) := Regular (b @ bytes @ [LF]))"
      by (rule Set_succeeds_state)
    have "CR \<notin> set bytes"
      using Marshal_printable [OF st(2), of CR] by auto
    moreover have "bytes_at p fs = b"
      using st(1) assms(1) by (auto simp: contents_def bytes_at_def split: entry.splits)
    ultimately show ?thesis
      using assms unfolding CallSet by (simp add: st(3,4) bytes_at_def)
  next
    case False
    with assms show ?thesis
      unfolding CallSet by (simp add: Set_fails_state)
  qed
next
  case (CallGet k)
  with assms show ?thesis by simp
next
  case (CallDelete k)
  with assms show ?thesis by (simp add: Delete_def split: option.splits)
next
  case CallClose
  with assms show ?thesis by (simp add: Close_def File_Close_def)
qed

lemma run_keeps_no_CR:
  "name (file (fst st)) = p \<Longrightarrow> CR \<notin> set (bytes_at p (snd st))
     \<Longrightarrow> name (file (fst (run cs st))) = p \<and> CR \<notin> set (bytes_at p (snd (run cs st)))"
proof (induction cs arbitrary: st)
  case Nil
  then show ?case by simp
next
  case (Cons c cs)
  obtain db fs where st: "st = (db, fs)" by (cases st)
  from Cons.prems have "name (file (fst (step c st))) = p
                        \<and> CR \<notin> set (bytes_at p (snd (step c st)))"
    unfolding st by (simp add: step_keeps_no_CR)
  then show ?case
    using Cons.IH [of "step c st"] by simp
qed

text \<open>
  A file without a carriage return meets the condition of the invariant, and stays without
  one under the calls of the store: a new file, and a file that only Set has written, can be
  opened again with the invariant in force.
\<close>

lemma written_file_no_CR:
  assumes "OpenDB p fs = (Inr db0, fs0)" and "CR \<notin> set (bytes_at p fs)"
  shows "CRLF_only_at_end (bytes_at p fs)
         \<and> CRLF_only_at_end (bytes_at p (snd (run cs (db0, fs0))))"
proof -
  note st = OpenDB_state [OF assms(1)]
  have "name (file (fst (db0, fs0))) = p" "CR \<notin> set (bytes_at p (snd (db0, fs0)))"
    using st(1,2) assms(2) by (simp_all add: bytes_at_def)
  from run_keeps_no_CR [OF this] assms(2) show ?thesis
    by (simp add: CRLF_only_at_end_no_CR)
qed

end
